theory Spec2Isabelle
  imports Complex_Main
begin

section \<open>Floating-point numbers\<close>

text \<open>
  Python's \<^verbatim>\<open>float\<close> is an IEEE 754 binary64 number. A finite float is a real number of
  the form \<open>m \<times> 2\<^sup>e\<close> with \<open>\<bar>m\<bar> < 2\<^sup>5\<^sup>3\<close> and \<open>-1074 \<le> e\<close>; the quantities of the model are
  reals, and every multiplication and division rounds its exact result to the nearest
  such number, ties to the even mantissa. Results beyond the largest float, infinities
  and NaN are not part of the model. A division by zero raises
  \<^verbatim>\<open>ZeroDivisionError\<close>. Python's unbounded \<^verbatim>\<open>int\<close> is \<^typ>\<open>int\<close>.

  \<open>bit_length n\<close> is the number of binary digits of \<open>n\<close>, \<open>pow2 e\<close> is \<open>2\<^sup>e\<close>, and
  \<open>exponent x\<close> is the \<open>e\<close> with \<open>2\<^sup>e \<le> \<bar>x\<bar> < 2\<^sup>e\<^sup>+\<^sup>1\<close>. The floats with that exponent are
  the multiples of \<open>2\<^sup>e\<^sup>-\<^sup>5\<^sup>2\<close>; below \<open>2\<^sup>-\<^sup>1\<^sup>0\<^sup>2\<^sup>2\<close> (subnormal numbers) the spacing stays
  \<open>2\<^sup>-\<^sup>1\<^sup>0\<^sup>7\<^sup>4\<close>.
\<close>

fun bit_length :: "nat \<Rightarrow> nat" where
  "bit_length n = (if n = 0 then 0 else Suc (bit_length (n div 2)))"

declare bit_length.simps [simp del]

definition pow2 :: "int \<Rightarrow> real" where
  "pow2 e = (if 0 \<le> e then 2 ^ nat e else 1 / 2 ^ nat (- e))"

definition exponent :: "real \<Rightarrow> int" where
  "exponent x =
     (if 1 \<le> \<bar>x\<bar> then int (bit_length (nat \<lfloor>\<bar>x\<bar>\<rfloor>)) - 1
      else - int (bit_length (nat (\<lceil>1 / \<bar>x\<bar>\<rceil> - 1))))"

definition round_half_even :: "real \<Rightarrow> int" where
  "round_half_even x =
     (let n = \<lfloor>x\<rfloor>; d = x - of_int n
      in if d < 1 / 2 then n else if 1 / 2 < d then n + 1 else if even n then n else n + 1)"

definition round_double :: "real \<Rightarrow> real" where
  "round_double x =
     (if x = 0 then 0
      else (let ulp = pow2 (max (exponent x) (- 1022) - 52)
            in of_int (round_half_even (x / ulp)) * ulp))"

text \<open>\<^verbatim>\<open>x * y\<close> and \<^verbatim>\<open>x / y\<close> on floats; the divisor is not zero where \<open>fdiv\<close> is used.\<close>

definition fmul :: "real \<Rightarrow> real \<Rightarrow> real" where
  "fmul x y = round_double (x * y)"

definition fdiv :: "real \<Rightarrow> real \<Rightarrow> real" where
  "fdiv x y = round_double (x / y)"

section \<open>The recipe model (model/recipe.py)\<close>

datatype error = IndexError | ValueError | ZeroDivisionError | AttributeError | KeyError

record ingredient =
  name :: string
  quantity :: real
  raw_quantity :: real

record recipe =
  recipe_name :: string
  machine :: string
  time :: real
  energy :: int
  inputs :: "ingredient list"
  outputs :: "ingredient list"

text \<open>\<^verbatim>\<open>Recipe.product\<close> is \<^verbatim>\<open>self.outputs[0]\<close>: an IndexError on a recipe without outputs.\<close>

definition product :: "recipe \<Rightarrow> error + ingredient" where
  "product r = (case outputs r of [] \<Rightarrow> Inl IndexError | p # _ \<Rightarrow> Inr p)"

text \<open>\<^verbatim>\<open>Recipe.byproduct\<close>: \<^verbatim>\<open>None\<close> with fewer than two outputs, else \<^verbatim>\<open>self.outputs[1]\<close>.\<close>

definition byproduct :: "recipe \<Rightarrow> ingredient option" where
  "byproduct r = (if length (outputs r) < 2 then None else Some (outputs r ! 1))"

section \<open>The catalog (model/codex.py)\<close>

record codex =
  recipes :: "recipe list"

text \<open>The \<^verbatim>\<open>by\<close> argument, \<^verbatim>\<open>Literal["any", "ingredient", "product"]\<close>.\<close>

datatype by_kind = Any | Ingredient | Product

text \<open>
  The list \<^verbatim>\<open>components\<close> of one loop iteration: the inputs when \<^verbatim>\<open>by\<close> is any or
  ingredient, followed by the one-element list \<^verbatim>\<open>[recipe.product]\<close> when \<^verbatim>\<open>by\<close> is any or
  product. Only \<^verbatim>\<open>recipe.product\<close> can raise.
\<close>

definition components :: "by_kind \<Rightarrow> recipe \<Rightarrow> error + ingredient list" where
  "components b r =
     (let ins = (if b = Any \<or> b = Ingredient then inputs r else [])
      in if b = Any \<or> b = Product
         then (case product r of Inl e \<Rightarrow> Inl e | Inr p \<Rightarrow> Inr (ins @ [p]))
         else Inr ins)"

text \<open>
  The loop of \<^verbatim>\<open>get_recipes_by_part\<close> over \<^verbatim>\<open>self.recipes\<close>, the exclusion set already
  resolved. An excluded recipe is skipped before its components are looked at.
\<close>

fun recipes_by_part_loop :: "string \<Rightarrow> by_kind \<Rightarrow> string set \<Rightarrow> recipe list \<Rightarrow> error + recipe list" where
  "recipes_by_part_loop part b excl [] = Inr []"
| "recipes_by_part_loop part b excl (r # rs) =
     (if machine r \<in> excl then recipes_by_part_loop part b excl rs
      else case components b r of
             Inl e \<Rightarrow> Inl e
           | Inr cs \<Rightarrow>
               (case recipes_by_part_loop part b excl rs of
                  Inl e \<Rightarrow> Inl e
                | Inr results \<Rightarrow> Inr (if part \<in> name ` set cs then r # results else results)))"

text \<open>\<^verbatim>\<open>exclude_machines=None\<close> stands for the set holding "Packager".\<close>

definition get_recipes_by_part ::
  "codex \<Rightarrow> string \<Rightarrow> by_kind \<Rightarrow> string set option \<Rightarrow> error + recipe list" where
  "get_recipes_by_part cdx part b exclude_machines =
     recipes_by_part_loop part b
       (case exclude_machines of None \<Rightarrow> {''Packager''} | Some s \<Rightarrow> s) (recipes cdx)"

section \<open>Selection policies (model/assembly\_line.py)\<close>

text \<open>
  \<^verbatim>\<open>max(options, key=...)\<close>: ValueError on an empty list; the keys are computed in list
  order and a later element replaces the best one only when its key is strictly greater,
  so the first of several maximal elements is returned.
\<close>

fun max_output_loop :: "recipe \<Rightarrow> real \<Rightarrow> recipe list \<Rightarrow> error + recipe" where
  "max_output_loop best k [] = Inr best"
| "max_output_loop best k (r # rs) =
     (case product r of
        Inl e \<Rightarrow> Inl e
      | Inr p \<Rightarrow> if k < quantity p then max_output_loop r (quantity p) rs
                else max_output_loop best k rs)"

definition max_output :: "recipe list \<Rightarrow> error + recipe" where
  "max_output options =
     (case options of
        [] \<Rightarrow> Inl ValueError
      | r # rs \<Rightarrow> (case product r of Inl e \<Rightarrow> Inl e | Inr p \<Rightarrow> max_output_loop r (quantity p) rs))"

text \<open>\<^verbatim>\<open>new_options or options\<close>: the filtered list unless it is empty.\<close>

definition preferred_names :: "recipe list \<Rightarrow> string set \<Rightarrow> error + recipe" where
  "preferred_names options names =
     (let new_options = filter (\<lambda>r. recipe_name r \<in> names) options
      in max_output (if new_options = [] then options else new_options))"

text \<open>\<^verbatim>\<open>min(options, key=len(inputs))\<close>: the first element with the fewest inputs.\<close>

fun simplest_recipe_loop :: "recipe \<Rightarrow> recipe list \<Rightarrow> recipe" where
  "simplest_recipe_loop best [] = best"
| "simplest_recipe_loop best (r # rs) =
     (if length (inputs r) < length (inputs best) then simplest_recipe_loop r rs
      else simplest_recipe_loop best rs)"

definition simplest_recipe :: "recipe list \<Rightarrow> error + recipe" where
  "simplest_recipe options =
     (case options of [] \<Rightarrow> Inl ValueError | r # rs \<Rightarrow> Inr (simplest_recipe_loop r rs))"

section \<open>Production nodes (model/assembly\_line.py)\<close>

text \<open>
  A \<^verbatim>\<open>Node\<close> holds its recipe, its \<^verbatim>\<open>quantity\<close> and its children. The \<^verbatim>\<open>parent\<close>
  back-reference is modelled by position: the parent of a node is the node whose
  \<^verbatim>\<open>children\<close> list holds it, as \<^verbatim>\<open>_build_factory\<close> sets it up. A node that is being
  visited comes with the chain of its ancestors, innermost first; each \<open>frame\<close> is one
  ancestor with the hole where the visited node sits: the ancestor's recipe and quantity,
  the children before the hole and the children after it. The empty chain is
  \<^verbatim>\<open>parent is None\<close>.
\<close>

datatype node = Node (recipe: recipe) (node_quantity: real) (children: "node list")

datatype frame = Frame recipe real "node list" "node list"

fun plug :: "node \<Rightarrow> frame \<Rightarrow> node" where
  "plug n (Frame r q ls rs) = Node r q (ls @ n # rs)"

fun root_of :: "node \<Rightarrow> frame list \<Rightarrow> node" where
  "root_of n [] = n"
| "root_of n (f # up) = root_of (plug n f) up"

text \<open>
  The factory. The field \<^verbatim>\<open>map\<close> is written \<open>map'\<close>. \<^verbatim>\<open>Factory(registry, recipe)\<close> makes a
  node without parent; \<^verbatim>\<open>Factory(registry, node)\<close>, as \<^verbatim>\<open>new_factory_from_product\<close> calls it,
  keeps the node object with its \<^verbatim>\<open>parent\<close>: \<open>above\<close> is the chain of ancestors of
  \<^verbatim>\<open>self.map\<close>, empty in the first case.
\<close>

record factory =
  registry :: codex
  map' :: node
  above :: "frame list"

text \<open>The nodes of a tree in pre-order, the order of every traversal of the source.\<close>

fun preorder :: "node \<Rightarrow> node list" where
  "preorder (Node r q cs) = Node r q cs # concat (map preorder cs)"

subsection \<open>Search\<close>

text \<open>
  \<^verbatim>\<open>_find_node_by_product\<close> returns the node object; here the node together with its chain
  of ancestors, which is what the object's \<^verbatim>\<open>parent\<close> links give. \<^verbatim>\<open>None\<close> is \<open>None\<close>.
\<close>

fun find_node_by_product :: "node \<Rightarrow> frame list \<Rightarrow> string \<Rightarrow> error + (node \<times> frame list) option"
  and find_in_children ::
    "recipe \<Rightarrow> real \<Rightarrow> node list \<Rightarrow> node list \<Rightarrow> frame list \<Rightarrow> string \<Rightarrow> error + (node \<times> frame list) option"
where
  "find_node_by_product (Node r q cs) up g =
     (case product r of
        Inl e \<Rightarrow> Inl e
      | Inr p \<Rightarrow> if name p = g then Inr (Some (Node r q cs, up))
                else find_in_children r q [] cs up g)"
| "find_in_children r q ls [] up g = Inr None"
| "find_in_children r q ls (c # rs) up g =
     (case find_node_by_product c (Frame r q ls rs # up) g of
        Inl e \<Rightarrow> Inl e
      | Inr (Some loc) \<Rightarrow> Inr (Some loc)
      | Inr None \<Rightarrow> find_in_children r q (ls @ [c]) rs up g)"

definition find_node :: "factory \<Rightarrow> string \<Rightarrow> error + (node \<times> frame list) option" where
  "find_node f criterion = find_node_by_product (map' f) (above f) criterion"

text \<open>
  \<^verbatim>\<open>new_factory_from_product\<close>: the new factory is built on the node object the search
  returns, which keeps its parent. When the search returns \<^verbatim>\<open>None\<close>, the new \<^verbatim>\<open>Factory\<close>
  object has no \<^verbatim>\<open>map\<close>: \<open>None\<close>.
\<close>

definition new_factory_from_product :: "factory \<Rightarrow> string \<Rightarrow> error + factory option" where
  "new_factory_from_product f product_name =
     (case find_node f product_name of
        Inl e \<Rightarrow> Inl e
      | Inr None \<Rightarrow> Inr None
      | Inr (Some (n, up)) \<Rightarrow> Inr (Some \<lparr>registry = registry f, map' = n, above = up\<rparr>))"

subsection \<open>Scaling\<close>

text \<open>
  The functions of \<^verbatim>\<open>scale\<close> write quantities in place and may raise half-way. A result
  \<open>Inr t\<close> is the state after a normal return; \<open>Inl (e, t)\<close> is the exception \<open>e\<close> together
  with the state as the writes made before the raise have left it.

  \<^verbatim>\<open>_scale_node_by_product(node, match_node)\<close>: of \<^verbatim>\<open>match_node\<close> only the recipe and the
  quantity are read.
\<close>

fun scale_node_by_product :: "recipe \<Rightarrow> real \<Rightarrow> node \<Rightarrow> (error \<times> node) + node"
  and scale_children_by_product :: "recipe \<Rightarrow> real \<Rightarrow> node list \<Rightarrow> (error \<times> node list) + node list"
where
  "scale_node_by_product mr mq (Node r q cs) =
     (case product r of
        Inl e \<Rightarrow> Inl (e, Node r q cs)
      | Inr p \<Rightarrow>
          (case find (\<lambda>ingredient. name ingredient = name p) (inputs mr) of
             None \<Rightarrow> Inl (ValueError, Node r q cs)
           | Some ingredient \<Rightarrow>
               (let target_quantity = fmul (quantity ingredient) mq
                in if quantity p = 0 then Inl (ZeroDivisionError, Node r q cs)
                   else (let q' = fdiv target_quantity (quantity p)
                         in case scale_children_by_product r q' cs of
                              Inl (e, cs') \<Rightarrow> Inl (e, Node r q' cs')
                            | Inr cs' \<Rightarrow> Inr (Node r q' cs')))))"
| "scale_children_by_product mr mq [] = Inr []"
| "scale_children_by_product mr mq (c # cs) =
     (case scale_node_by_product mr mq c of
        Inl (e, c') \<Rightarrow> Inl (e, c' # cs)
      | Inr c' \<Rightarrow>
          (case scale_children_by_product mr mq cs of
             Inl (e, cs') \<Rightarrow> Inl (e, c' # cs')
           | Inr cs' \<Rightarrow> Inr (c' # cs')))"

text \<open>
  \<^verbatim>\<open>_scale_node_by_ingredient(node, match_node)\<close> with \<^verbatim>\<open>node = match_node.parent\<close>: the first
  argument is the chain of ancestors of \<^verbatim>\<open>match_node\<close>, whose head is \<^verbatim>\<open>node\<close>. The guard
  \<^verbatim>\<open>if node.parent is not None\<close> of the callers is the first equation. The loop over the
  children of \<^verbatim>\<open>node\<close> skips \<^verbatim>\<open>match_node\<close> itself: it runs over the children before it and
  then over the children after it. \<^verbatim>\<open>match_node\<close> and its subtree are not written; the
  result is the chain of ancestors as the call leaves it.
\<close>

fun scale_node_by_ingredient :: "frame list \<Rightarrow> node \<Rightarrow> (error \<times> frame list) + frame list" where
  "scale_node_by_ingredient [] m = Inr []"
| "scale_node_by_ingredient (Frame r q ls rs # up) m =
     (case product (recipe m) of
        Inl e \<Rightarrow> Inl (e, Frame r q ls rs # up)
      | Inr p \<Rightarrow>
          (let target_quantity = fmul (quantity p) (node_quantity m)
           in case find (\<lambda>ingredient. name ingredient = name p) (inputs r) of
                None \<Rightarrow> Inl (ValueError, Frame r q ls rs # up)
              | Some ingredient \<Rightarrow>
                  if quantity ingredient = 0
                  then Inl (ZeroDivisionError, Frame r q ls rs # up)
                  else (let q' = fdiv target_quantity (quantity ingredient)
                        in case scale_children_by_product r q' ls of
                             Inl (e, ls') \<Rightarrow> Inl (e, Frame r q' ls' rs # up)
                           | Inr ls' \<Rightarrow>
                               (case scale_children_by_product r q' rs of
                                  Inl (e, rs') \<Rightarrow> Inl (e, Frame r q' ls' rs' # up)
                                | Inr rs' \<Rightarrow>
                                    (case scale_node_by_ingredient up (Node r q' (ls' @ m # rs')) of
                                       Inl (e, up') \<Rightarrow> Inl (e, Frame r q' ls' rs' # up')
                                     | Inr up' \<Rightarrow> Inr (Frame r q' ls' rs' # up'))))))"

text \<open>
  The factory whose objects are in the state given by a node \<open>n\<close> and its chain of
  ancestors \<open>up\<close>: the outermost \<open>length (above f)\<close> ancestors are those of \<^verbatim>\<open>self.map\<close>, and
  \<^verbatim>\<open>self.map\<close> is the node the others lead up to.
\<close>

definition located :: "factory \<Rightarrow> node \<Rightarrow> frame list \<Rightarrow> factory" where
  "located f n up =
     f\<lparr>map' := root_of n (take (length up - length (above f)) up),
       above := drop (length up - length (above f)) up\<rparr>"

text \<open>
  \<^verbatim>\<open>scale\<close>: \<^verbatim>\<open>find_node\<close> returning \<^verbatim>\<open>None\<close> makes \<^verbatim>\<open>node.recipe\<close> raise AttributeError;
  the right-hand side of the first assignment is evaluated (and may raise) before the
  quantity is written.
\<close>

definition scale :: "factory \<Rightarrow> string \<Rightarrow> real \<Rightarrow> (error \<times> factory) + factory" where
  "scale f part_name target_quantity =
     (case find_node f part_name of
        Inl e \<Rightarrow> Inl (e, f)
      | Inr None \<Rightarrow> Inl (AttributeError, f)
      | Inr (Some (n, up)) \<Rightarrow>
          (case product (recipe n) of
             Inl e \<Rightarrow> Inl (e, f)
           | Inr p \<Rightarrow>
               if quantity p = 0 then Inl (ZeroDivisionError, f)
               else (let q' = fdiv target_quantity (quantity p)
                     in case scale_children_by_product (recipe n) q' (children n) of
                          Inl (e, cs') \<Rightarrow> Inl (e, located f (Node (recipe n) q' cs') up)
                        | Inr cs' \<Rightarrow>
                            (case scale_node_by_ingredient up (Node (recipe n) q' cs') of
                               Inl (e, up') \<Rightarrow> Inl (e, located f (Node (recipe n) q' cs') up')
                             | Inr up' \<Rightarrow> Inr (located f (Node (recipe n) q' cs') up')))))"

subsection \<open>Machine tally\<close>

text \<open>
  \<^verbatim>\<open>machines\<close> is a \<^verbatim>\<open>defaultdict(int)\<close>: \<^verbatim>\<open>machines[k] += v\<close> reads a missing key as 0 and
  stores the sum under the key.
\<close>

fun tally_machines_node :: "node \<Rightarrow> (string \<rightharpoonup> int) \<Rightarrow> (string \<rightharpoonup> int)"
  and tally_machines_children :: "node list \<Rightarrow> (string \<rightharpoonup> int) \<Rightarrow> (string \<rightharpoonup> int)"
where
  "tally_machines_node (Node r q cs) machines =
     tally_machines_children cs
       (machines(machine r \<mapsto> (case machines (machine r) of None \<Rightarrow> 0 | Some c \<Rightarrow> c) + \<lceil>q\<rceil>))"
| "tally_machines_children [] machines = machines"
| "tally_machines_children (c # cs) machines =
     tally_machines_children cs (tally_machines_node c machines)"

definition tally_machines :: "factory \<Rightarrow> (string \<rightharpoonup> int)" where
  "tally_machines f = tally_machines_node (map' f) Map.empty"


subsection \<open>Building the tree\<close>

text \<open>
  \<^verbatim>\<open>_build_factory\<close> appends the new children to \<^verbatim>\<open>node.children\<close> and adds product names
  to the one set \<^verbatim>\<open>products\<close> that every call shares; here the set is passed in and
  handed back, so that the call for the next input starts from the set the previous call
  has left. The selection policy \<^verbatim>\<open>fitness_func\<close> is any function from the candidate list
  to a recipe (or an exception). \<open>build_inputs\<close> is the loop over \<^verbatim>\<open>node.recipe.inputs\<close>;
  it returns the nodes to append. A new node is \<^verbatim>\<open>Node(recipe, parent=node)\<close>: quantity
  1.0 and no children.
\<close>

function build_factory ::
    "codex \<Rightarrow> (recipe list \<Rightarrow> error + recipe) \<Rightarrow> string set \<Rightarrow> node \<Rightarrow> string set \<Rightarrow> int
      \<Rightarrow> error + node \<times> string set"
  and build_inputs ::
    "codex \<Rightarrow> (recipe list \<Rightarrow> error + recipe) \<Rightarrow> string set \<Rightarrow> ingredient list \<Rightarrow> string set \<Rightarrow> int
      \<Rightarrow> error + node list \<times> string set"
where
  "build_factory reg fitness_func excl (Node r q cs) products depth =
     (if depth = 0 then Inr (Node r q cs, products)
      else case product r of
             Inl e \<Rightarrow> Inl e
           | Inr p \<Rightarrow>
               if name p \<in> products then Inr (Node r q cs, products)
               else (case build_inputs reg fitness_func excl (inputs r) (insert (name p) products) depth of
                       Inl e \<Rightarrow> Inl e
                     | Inr (new, products') \<Rightarrow> Inr (Node r q (cs @ new), products')))"
| "build_inputs reg fitness_func excl [] products depth = Inr ([], products)"
| "build_inputs reg fitness_func excl (i # is) products depth =
     (case get_recipes_by_part reg (name i) Product (Some excl) of
        Inl e \<Rightarrow> Inl e
      | Inr options \<Rightarrow>
          if options = [] then build_inputs reg fitness_func excl is products depth
          else (case fitness_func options of
                  Inl e \<Rightarrow> Inl e
                | Inr chosen \<Rightarrow>
                    (case build_factory reg fitness_func excl (Node chosen 1 []) products (depth - 1) of
                       Inl e \<Rightarrow> Inl e
                     | Inr (new_node, products1) \<Rightarrow>
                         (case build_inputs reg fitness_func excl is products1 depth of
                            Inl e \<Rightarrow> Inl e
                          | Inr (rest, products2) \<Rightarrow> Inr (new_node # rest, products2)))))"
  by pat_completeness auto


text \<open>
  Termination. The names the set can ever receive are the product name of the node the
  call starts at and the product names of the recipes the policy selects from the
  candidate lists the catalog can return, which are sublists of the catalog: finitely
  many. Each expansion adds one of them to the set.
\<close>

definition product_names :: "recipe \<Rightarrow> string set" where
  "product_names r = (case product r of Inl e \<Rightarrow> {} | Inr p \<Rightarrow> {name p})"

definition selectable_names :: "codex \<Rightarrow> (recipe list \<Rightarrow> error + recipe) \<Rightarrow> string set" where
  "selectable_names reg fitness_func =
     (\<Union>xs \<in> set (subseqs (recipes reg)).
        case fitness_func xs of Inl e \<Rightarrow> {} | Inr r \<Rightarrow> product_names r)"

lemma finite_product_names: "finite (product_names r)"
  by (simp add: product_names_def split: sum.splits)

lemma finite_selectable_names: "finite (selectable_names reg fitness_func)"
  by (auto simp: selectable_names_def finite_product_names split: sum.splits)

lemma recipes_by_part_loop_subseqs:
  "recipes_by_part_loop part b excl rs = Inr xs \<Longrightarrow> xs \<in> set (subseqs rs)"
  by (induction rs arbitrary: xs) (auto simp: Let_def split: if_splits sum.splits)

lemma selected_names:
  assumes "get_recipes_by_part reg part b ex = Inr options" "fitness_func options = Inr chosen"
  shows "product_names chosen \<subseteq> selectable_names reg fitness_func"
proof -
  have "options \<in> set (subseqs (recipes reg))"
    using assms(1) by (simp add: get_recipes_by_part_def recipes_by_part_loop_subseqs)
  then show ?thesis
    using assms(2) by (force simp: selectable_names_def)
qed

lemma build_grows_dom:
  "build_factory_build_inputs_dom (Inl (reg, fitness_func, excl, n, products, depth)) \<Longrightarrow>
     build_factory reg fitness_func excl n products depth = Inr (n', products') \<Longrightarrow>
     products \<subseteq> products'"
  "build_factory_build_inputs_dom (Inr (reg, fitness_func, excl, ins, products, depth)) \<Longrightarrow>
     build_inputs reg fitness_func excl ins products depth = Inr (ns, products') \<Longrightarrow>
     products \<subseteq> products'"
proof (induction reg fitness_func excl n products depth and reg fitness_func excl ins products depth
    arbitrary: n' products' and ns products' rule: build_factory_build_inputs.pinduct)
  case (1 reg fitness_func excl r q cs products depth)
  then show ?case
    by (fastforce simp: build_factory.psimps split: if_splits sum.splits prod.splits)
next
  case (2 reg fitness_func excl products depth)
  then show ?case by (simp add: build_inputs.psimps)
next
  case (3 reg fitness_func excl i "is" products depth)
  then show ?case
    by (fastforce simp: build_inputs.psimps split: if_splits sum.splits prod.splits)
qed

lemma card_diff_insert_less:
  assumes "finite U" "x \<notin> P"
  shows "card (U - insert x P) < card ((U \<union> {x}) - P)"
proof -
  have "(U \<union> {x}) - P = insert x (U - insert x P)" using assms(2) by auto
  moreover have "x \<notin> U - insert x P" by simp
  ultimately show ?thesis using assms(1) by simp
qed

termination build_factory
proof (relation "inv_image (less_than <*lex*> less_than)
    (\<lambda>x. case x of
       Inl (reg, fitness_func, excl, n, products, depth) \<Rightarrow>
         (card ((selectable_names reg fitness_func \<union> product_names (recipe n)) - products), 0)
     | Inr (reg, fitness_func, excl, ins, products, depth) \<Rightarrow>
         (card (selectable_names reg fitness_func - products), Suc (length ins)))", goal_cases)
  case 1
  show ?case by (intro wf_inv_image wf_lex_prod wf_less_than)
next
  case (2 reg fitness_func excl r q cs products depth p)
  then show ?case
    using card_diff_insert_less [OF finite_selectable_names, of "name p" products reg fitness_func]
    by (simp add: product_names_def)
next
  case (3 reg fitness_func excl i "is" products depth options)
  then show ?case by simp
next
  case (4 reg fitness_func excl i "is" products depth options chosen)
  then show ?case
    using selected_names [of reg "name i" Product "Some excl" options fitness_func chosen]
    by (simp add: Un_absorb2)
next
  case (5 reg fitness_func excl i "is" products depth options chosen res new_node products1)
  then have "products \<subseteq> products1"
    using build_grows_dom(1) by metis
  then have "card (selectable_names reg fitness_func - products1)
      \<le> card (selectable_names reg fitness_func - products)"
    by (intro card_mono) (auto simp: finite_selectable_names)
  then show ?case by auto
qed

text \<open>
  \<^verbatim>\<open>build\<close>. \<^verbatim>\<open>existing_products or set()\<close> is the caller's set object itself when that is
  non-empty, and a fresh set when it is \<^verbatim>\<open>None\<close> or empty. The second component of the
  result is the caller's set object after the call: the shared set when it was aliased,
  the caller's own (empty, untouched) set otherwise. The root keeps its quantity; its
  children are discarded first. \<^verbatim>\<open>max_depth\<close> defaults to \<open>-1\<close>.
\<close>

definition build ::
  "factory \<Rightarrow> (recipe list \<Rightarrow> error + recipe) option \<Rightarrow> string set option \<Rightarrow> string set option \<Rightarrow> int
     \<Rightarrow> error + factory \<times> string set option" where
  "build f fitness_func exclude_machines existing_products max_depth =
     (let fitness = (case fitness_func of None \<Rightarrow> simplest_recipe | Some g \<Rightarrow> g);
          excl = (case exclude_machines of None \<Rightarrow> {''Packager''} | Some s \<Rightarrow> s);
          products = (case existing_products of None \<Rightarrow> {} | Some s \<Rightarrow> if s = {} then {} else s)
      in case build_factory (registry f) fitness excl
                (Node (recipe (map' f)) (node_quantity (map' f)) []) products max_depth of
           Inl e \<Rightarrow> Inl e
         | Inr (n, products') \<Rightarrow>
             Inr (f\<lparr>map' := n\<rparr>,
                  (case existing_products of
                     None \<Rightarrow> None
                   | Some s \<Rightarrow> if s = {} then Some s else Some products')))"

section \<open>Example data\<close>

text \<open>
  The two recipes of the end-to-end example of the specification, and a recipe with a
  byproduct.
\<close>

definition smelt_ore :: recipe where
  "smelt_ore = \<lparr>recipe_name = ''Smelt Ore'', machine = ''Smelter'', time = 2, energy = 4,
     inputs = [\<lparr>name = ''Ore'', quantity = 60, raw_quantity = 2\<rparr>],
     outputs = [\<lparr>name = ''Bar'', quantity = 30, raw_quantity = 1\<rparr>]\<rparr>"

definition make_widget :: recipe where
  "make_widget = \<lparr>recipe_name = ''Make Widget'', machine = ''Assembler'', time = 6, energy = 15,
     inputs = [\<lparr>name = ''Bar'', quantity = 20, raw_quantity = 2\<rparr>],
     outputs = [\<lparr>name = ''Widget'', quantity = 10, raw_quantity = 1\<rparr>]\<rparr>"

definition refine_ore :: recipe where
  "refine_ore = \<lparr>recipe_name = ''Refine Ore'', machine = ''Refinery'', time = 4, energy = 30,
     inputs = [\<lparr>name = ''Ore'', quantity = 30, raw_quantity = 2\<rparr>],
     outputs = [\<lparr>name = ''Bar'', quantity = 45, raw_quantity = 3\<rparr>,
                \<lparr>name = ''Slag'', quantity = 15, raw_quantity = 1\<rparr>]\<rparr>"

section \<open>Catalog queries\<close>

text \<open>
  A recipe consumes a good that is named among its inputs; it produces the good its
  primary product \<^verbatim>\<open>outputs[0]\<close> names.
\<close>

definition consumes :: "string \<Rightarrow> recipe \<Rightarrow> bool" where
  "consumes part r = (part \<in> name ` set (inputs r))"

definition produces :: "string \<Rightarrow> recipe \<Rightarrow> bool" where
  "produces part r = (case outputs r of [] \<Rightarrow> False | p # _ \<Rightarrow> name p = part)"

fun involves :: "by_kind \<Rightarrow> string \<Rightarrow> recipe \<Rightarrow> bool" where
  "involves Ingredient part r = consumes part r"
| "involves Product part r = produces part r"
| "involves Any part r = (consumes part r \<or> produces part r)"

lemma recipes_by_part_loop_filter:
  assumes "\<forall>r \<in> set rs. outputs r \<noteq> []"
  shows "recipes_by_part_loop part b excl rs =
     Inr (filter (\<lambda>r. machine r \<notin> excl \<and> involves b part r) rs)"
  using assms
proof (induction rs)
  case Nil
  then show ?case by simp
next
  case (Cons r rs)
  then obtain p ps where "outputs r = p # ps" by (cases "outputs r") auto
  with Cons show ?case
    by (cases b) (auto simp: components_def product_def consumes_def produces_def)
qed

text \<open>
  C3 (as amended). In a catalog whose recipes all have a primary product,
  \<^verbatim>\<open>get_recipes_by_part\<close> returns, in catalog order, the recipes whose machine is not
  excluded and that consume the good (ingredient), have it as their primary product
  (product), or either (any). A byproduct does not make a recipe a producer.
\<close>

theorem get_recipes_by_part_filter:
  assumes "\<forall>r \<in> set (recipes cdx). outputs r \<noteq> []"
  shows "get_recipes_by_part cdx part b exclude_machines =
     Inr (filter (\<lambda>r. machine r \<notin> (case exclude_machines of None \<Rightarrow> {''Packager''} | Some s \<Rightarrow> s)
                      \<and> involves b part r) (recipes cdx))"
  unfolding get_recipes_by_part_def by (rule recipes_by_part_loop_filter [OF assms])

theorem get_recipes_by_part_filter_witness:
  "get_recipes_by_part \<lparr>recipes = [make_widget, refine_ore, smelt_ore]\<rparr> ''Bar'' Any (Some {''Smelter''})
     = Inr [make_widget, refine_ore]"
  using get_recipes_by_part_filter
    [of "\<lparr>recipes = [make_widget, refine_ore, smelt_ore]\<rparr>" "''Bar''" Any "Some {''Smelter''}"]
  by (simp add: make_widget_def refine_ore_def smelt_ore_def consumes_def produces_def)

text \<open>
  C3 as stated fails: Slag is the second output of a recipe that is not excluded, and the
  query for the producers of Slag returns nothing.
\<close>

theorem byproduct_not_producer_counterexample:
  "''Slag'' \<in> name ` set (outputs refine_ore) \<and> machine refine_ore \<notin> {''Packager''} \<and>
   get_recipes_by_part \<lparr>recipes = [refine_ore]\<rparr> ''Slag'' Product None = Inr []"
  by (simp add: get_recipes_by_part_def components_def product_def refine_ore_def)

section \<open>The preferred-names policy\<close>

lemma max_output_loop_max:
  assumes "product best = Inr pb" "k = quantity pb" "\<forall>r \<in> set rs. outputs r \<noteq> []"
  shows "\<exists>b p. max_output_loop best k rs = Inr b \<and> product b = Inr p \<and> b \<in> insert best (set rs) \<and>
           k \<le> quantity p \<and> (\<forall>r \<in> set rs. \<forall>p'. product r = Inr p' \<longrightarrow> quantity p' \<le> quantity p)"
  using assms
proof (induction rs arbitrary: best pb k)
  case Nil
  then show ?case by simp
next
  case (Cons r rs)
  then obtain p where p: "product r = Inr p"
    by (cases "outputs r") (auto simp: product_def)
  show ?case
  proof (cases "k < quantity p")
    case True
    from Cons.IH [OF p refl] Cons.prems(3)
    obtain b pm where "max_output_loop r (quantity p) rs = Inr b" "product b = Inr pm"
      "b \<in> insert r (set rs)" "quantity p \<le> quantity pm"
      "\<forall>r \<in> set rs. \<forall>p'. product r = Inr p' \<longrightarrow> quantity p' \<le> quantity pm"
      by auto
    with True p show ?thesis by auto
  next
    case False
    from Cons.IH [OF Cons.prems(1) Cons.prems(2)] Cons.prems(3)
    obtain b pm where "max_output_loop best k rs = Inr b" "product b = Inr pm"
      "b \<in> insert best (set rs)" "k \<le> quantity pm"
      "\<forall>r \<in> set rs. \<forall>p'. product r = Inr p' \<longrightarrow> quantity p' \<le> quantity pm"
      by auto
    with False p show ?thesis by auto
  qed
qed

lemma max_output_max:
  assumes "options \<noteq> []" "\<forall>r \<in> set options. outputs r \<noteq> []"
  shows "\<exists>b p. max_output options = Inr b \<and> product b = Inr p \<and> b \<in> set options \<and>
           (\<forall>r \<in> set options. \<forall>p'. product r = Inr p' \<longrightarrow> quantity p' \<le> quantity p)"
proof -
  from assms obtain r rs where opts: "options = r # rs" by (cases options) auto
  with assms(2) obtain pr where pr: "product r = Inr pr"
    by (cases "outputs r") (auto simp: product_def)
  from max_output_loop_max [OF pr refl, of rs] assms(2) opts
  obtain b p where "max_output_loop r (quantity pr) rs = Inr b" "product b = Inr p"
    "b \<in> insert r (set rs)" "quantity pr \<le> quantity p"
    "\<forall>r \<in> set rs. \<forall>p'. product r = Inr p' \<longrightarrow> quantity p' \<le> quantity p"
    by auto
  with opts pr show ?thesis by (auto simp: max_output_def)
qed

text \<open>
  C8. On a non-empty candidate list whose recipes all have a primary product,
  \<^verbatim>\<open>preferred_names\<close> returns a candidate of the allow-listed sublist with the highest
  primary-product rate of that sublist when the sublist is not empty, and otherwise a
  candidate with the highest primary-product rate of all candidates.
\<close>

theorem preferred_names_highest_rate:
  assumes "options \<noteq> []" and "\<forall>r \<in> set options. outputs r \<noteq> []"
  shows "\<exists>best pb. preferred_names options names = Inr best \<and> product best = Inr pb \<and>
     (if filter (\<lambda>r. recipe_name r \<in> names) options \<noteq> []
      then best \<in> set (filter (\<lambda>r. recipe_name r \<in> names) options) \<and>
           (\<forall>r \<in> set (filter (\<lambda>r. recipe_name r \<in> names) options).
              \<forall>p. product r = Inr p \<longrightarrow> quantity p \<le> quantity pb)
      else best \<in> set options \<and>
           (\<forall>r \<in> set options. \<forall>p. product r = Inr p \<longrightarrow> quantity p \<le> quantity pb))"
proof (cases "filter (\<lambda>r. recipe_name r \<in> names) options = []")
  case True
  with max_output_max [OF assms] show ?thesis
    by (simp add: preferred_names_def)
next
  case False
  have "\<forall>r \<in> set (filter (\<lambda>r. recipe_name r \<in> names) options). outputs r \<noteq> []"
    using assms(2) by simp
  from max_output_max [OF False this] False show ?thesis
    by (simp add: preferred_names_def)
qed

theorem preferred_names_highest_rate_witness:
  "preferred_names [smelt_ore, refine_ore, make_widget] {''Smelt Ore'', ''Make Widget''} = Inr smelt_ore \<and>
   preferred_names [smelt_ore, refine_ore, make_widget] {''Cast Bar''} = Inr refine_ore"
  using preferred_names_highest_rate [of "[smelt_ore, refine_ore, make_widget]" "{''Smelt Ore'', ''Make Widget''}"]
  by (simp add: preferred_names_def max_output_def product_def smelt_ore_def refine_ore_def make_widget_def)

section \<open>The machine tally\<close>

text \<open>The sum of \<^verbatim>\<open>ceil(quantity)\<close> over the nodes of a list that run on machine \<open>k\<close>.\<close>

definition machine_total :: "string \<Rightarrow> node list \<Rightarrow> int" where
  "machine_total k ns = (\<Sum>n \<leftarrow> filter (\<lambda>n. machine (recipe n) = k) ns. \<lceil>node_quantity n\<rceil>)"

lemma machine_total_simps [simp]:
  "machine_total k [] = 0"
  "machine_total k (n # ns) = (if machine (recipe n) = k then \<lceil>node_quantity n\<rceil> else 0) + machine_total k ns"
  "machine_total k (xs @ ys) = machine_total k xs + machine_total k ys"
  by (simp_all add: machine_total_def)

lemma machine_total_absent:
  "k \<notin> (\<lambda>n. machine (recipe n)) ` set ns \<Longrightarrow> machine_total k ns = 0"
  by (induction ns) auto

definition count_of :: "(string \<rightharpoonup> int) \<Rightarrow> string \<Rightarrow> int" where
  "count_of machines k = (case machines k of None \<Rightarrow> 0 | Some c \<Rightarrow> c)"

lemma tally_machines_node_children:
  "tally_machines_node n machines k =
     (if k \<in> (\<lambda>n. machine (recipe n)) ` set (preorder n)
      then Some (count_of machines k + machine_total k (preorder n)) else machines k)"
  "tally_machines_children cs machines k =
     (if k \<in> (\<lambda>n. machine (recipe n)) ` set (concat (map preorder cs))
      then Some (count_of machines k + machine_total k (concat (map preorder cs))) else machines k)"
proof (induction n machines and cs machines arbitrary: k and k
    rule: tally_machines_node_tally_machines_children.induct)
  case (1 r q cs machines)
  show ?case
    using machine_total_absent [of k "concat (map preorder cs)"]
    by (auto simp: "1.IH" count_of_def)
next
  case (2 machines)
  show ?case by simp
next
  case (3 c cs machines)
  show ?case
    using machine_total_absent [of k "concat (map preorder cs)"]
      machine_total_absent [of k "preorder c"]
    by (auto simp: "3.IH" count_of_def image_Un)
qed

text \<open>
  C9. The mapping \<^verbatim>\<open>tally_machines\<close> returns has exactly the machine types of the tree's
  nodes as keys, and the count of each is the sum of \<^verbatim>\<open>ceil(quantity)\<close> over the nodes
  with that machine type.
\<close>

theorem tally_machines_sums:
  "tally_machines f k =
     (if k \<in> (\<lambda>n. machine (recipe n)) ` set (preorder (map' f))
      then Some (machine_total k (preorder (map' f))) else None)"
  by (simp add: tally_machines_def tally_machines_node_children(1) count_of_def)

theorem tally_machines_sums_witness:
  "tally_machines \<lparr>registry = \<lparr>recipes = []\<rparr>,
      map' = Node make_widget (5 / 2) [Node smelt_ore (5 / 3) []], above = []\<rparr> ''Assembler'' = Some 3 \<and>
   tally_machines \<lparr>registry = \<lparr>recipes = []\<rparr>,
      map' = Node make_widget (5 / 2) [Node smelt_ore (5 / 3) []], above = []\<rparr> ''Smelter'' = Some 2 \<and>
   tally_machines \<lparr>registry = \<lparr>recipes = []\<rparr>,
      map' = Node make_widget (5 / 2) [Node smelt_ore (5 / 3) []], above = []\<rparr> ''Packager'' = None"
  using tally_machines_sums [of "\<lparr>registry = \<lparr>recipes = []\<rparr>,
      map' = Node make_widget (5 / 2) [Node smelt_ore (5 / 3) []], above = []\<rparr>" "''Assembler''"]
  by (simp add: tally_machines_def make_widget_def smelt_ore_def)

section \<open>The rounding\<close>

text \<open>
  \<open>exponent x\<close> is the integer part of the binary logarithm of \<open>\<bar>x\<bar>\<close>, and \<open>round_double x\<close> is
  a multiple of the spacing of the floats around \<open>x\<close> at most half that spacing away from
  \<open>x\<close>, the one with the even mantissa when two are equally near.
\<close>

lemma bit_length_bounds:
  "0 < n \<Longrightarrow> 2 ^ (bit_length n - 1) \<le> n \<and> n < 2 ^ bit_length n"
proof (induction n rule: bit_length.induct)
  case (1 n)
  from 1(2) have b: "bit_length n = Suc (bit_length (n div 2))"
    by (subst bit_length.simps) simp
  show ?case
  proof (cases "n div 2 = 0")
    case True
    with 1(2) have n: "n = 1" by (simp add: div_eq_0_iff)
    have "bit_length (0::nat) = 0" by (subst bit_length.simps) simp
    with b n True show ?thesis by simp
  next
    case False
    then have pos: "0 < n div 2" by simp
    from 1(2) have "n \<noteq> 0" by simp
    from 1(1) [OF this pos] have IH: "2 ^ (bit_length (n div 2) - 1) \<le> n div 2"
      "n div 2 < 2 ^ bit_length (n div 2)"
      by simp_all
    have "0 < bit_length (n div 2)"
      using pos by (subst bit_length.simps) simp
    then have bl: "bit_length (n div 2) = Suc (bit_length (n div 2) - 1)" by simp
    have "(2::nat) ^ bit_length (n div 2) = 2 * 2 ^ (bit_length (n div 2) - 1)"
      by (subst bl) simp
    also have "\<dots> \<le> 2 * (n div 2)" using IH(1) by simp
    also have "\<dots> \<le> n" by simp
    finally have lo: "2 ^ (bit_length n - 1) \<le> n" using b by simp
    have "n < 2 * (n div 2 + 1)" by arith
    also have "\<dots> \<le> 2 * 2 ^ bit_length (n div 2)" using IH(2) by simp
    finally have hi: "n < 2 ^ bit_length n" using b by simp
    from lo hi show ?thesis ..
  qed
qed

lemma exponent_bounds:
  assumes "x \<noteq> 0"
  shows "pow2 (exponent x) \<le> \<bar>x\<bar> \<and> \<bar>x\<bar> < pow2 (exponent x + 1)"
proof (cases "1 \<le> \<bar>x\<bar>")
  case True
  let ?n = "nat \<lfloor>\<bar>x\<bar>\<rfloor>"
  let ?b = "bit_length ?n"
  from True have n: "0 < ?n" by simp
  from bit_length_bounds [OF n] have lo: "2 ^ (?b - 1) \<le> ?n" and hi: "?n < 2 ^ ?b" by simp_all
  from hi n have b: "0 < ?b" by (cases ?b) simp_all
  have e: "exponent x = int ?b - 1" using True by (simp add: exponent_def)
  have "real (2 ^ (?b - 1)) \<le> real ?n" using lo by (simp only: of_nat_le_iff)
  also have "real ?n \<le> \<bar>x\<bar>" by simp
  finally have 1: "pow2 (exponent x) \<le> \<bar>x\<bar>"
    using e b by (simp add: pow2_def nat_diff_distrib)
  have "\<bar>x\<bar> < real_of_int \<lfloor>\<bar>x\<bar>\<rfloor> + 1" by linarith
  also have "\<dots> = real (?n + 1)" by simp
  also have "\<dots> \<le> real (2 ^ ?b)" using hi by (simp only: of_nat_le_iff)
  finally have 2: "\<bar>x\<bar> < pow2 (exponent x + 1)"
    using e by (simp add: pow2_def)
  from 1 2 show ?thesis ..
next
  case False
  let ?y = "1 / \<bar>x\<bar>"
  let ?n = "nat (\<lceil>?y\<rceil> - 1)"
  let ?b = "bit_length ?n"
  from False assms have x: "0 < \<bar>x\<bar>" "\<bar>x\<bar> < 1" by simp_all
  then have y: "1 < ?y" by simp
  then have c: "2 \<le> \<lceil>?y\<rceil>" by linarith
  then have n: "0 < ?n" by simp
  from bit_length_bounds [OF n] have lo: "2 ^ (?b - 1) \<le> ?n" and hi: "?n < 2 ^ ?b" by simp_all
  from hi n have b: "0 < ?b" by (cases ?b) simp_all
  have e: "exponent x = - int ?b" using False by (simp add: exponent_def)
  have "0 \<le> \<lceil>?y\<rceil> - 1" using c by linarith
  then have "real ?n = real_of_int (\<lceil>?y\<rceil> - 1)" by (simp only: of_nat_nat)
  then have rn: "real ?n = real_of_int \<lceil>?y\<rceil> - 1" by simp
  have "?y \<le> real_of_int \<lceil>?y\<rceil>" by linarith
  also have "\<dots> = real (?n + 1)" using rn by simp
  also have "\<dots> \<le> real (2 ^ ?b)" using hi by (simp only: of_nat_le_iff)
  finally have "?y \<le> 2 ^ ?b" by simp
  then have "1 \<le> 2 ^ ?b * \<bar>x\<bar>" using x(1) by (simp add: field_simps)
  then have 1: "pow2 (exponent x) \<le> \<bar>x\<bar>"
    using e b by (simp add: pow2_def field_simps)
  have "real (2 ^ (?b - 1)) \<le> real ?n" using lo by (simp only: of_nat_le_iff)
  also have "real ?n < ?y" using rn by linarith
  finally have "2 ^ (?b - 1) < ?y" by simp
  then have lt: "2 ^ (?b - 1) * \<bar>x\<bar> < 1" using x(1) by (simp add: field_simps)
  have 2: "\<bar>x\<bar> < pow2 (exponent x + 1)"
  proof (cases "?b = 1")
    case True
    with e x(2) show ?thesis by (simp add: pow2_def)
  next
    case False
    with b have "1 < ?b" by simp
    then have "nat (int ?b - 1) = ?b - 1" "\<not> 0 \<le> 1 - int ?b" by simp_all
    with e lt show ?thesis by (simp add: pow2_def field_simps)
  qed
  from 1 2 show ?thesis ..
qed

text \<open>The float \<^verbatim>\<open>0.1\<close> is \<open>3602879701896397 / 2\<^sup>5\<^sup>5\<close>.\<close>

lemma round_double_tenth: "round_double (1 / 10) = 3602879701896397 / 36028797018963968"
  by (simp add: round_double_def round_half_even_def exponent_def pow2_def bit_length.simps Let_def)

lemma round_half_even_near: "\<bar>of_int (round_half_even x) - x\<bar> \<le> 1 / 2"
  unfolding round_half_even_def Let_def by (auto; linarith)

lemma pow2_pos: "0 < pow2 e"
  by (simp add: pow2_def)

lemma round_double_near:
  "\<bar>round_double x - x\<bar> \<le> pow2 (max (exponent x) (- 1022) - 52) / 2"
proof (cases "x = 0")
  case True
  then show ?thesis using pow2_pos [of "max (exponent 0) (- 1022) - 52"]
    by (simp add: round_double_def)
next
  case False
  let ?u = "pow2 (max (exponent x) (- 1022) - 52)"
  have u: "0 < ?u" by (rule pow2_pos)
  have "round_double x - x = (of_int (round_half_even (x / ?u)) - x / ?u) * ?u"
    using False u by (simp add: round_double_def Let_def field_simps)
  then have "\<bar>round_double x - x\<bar> = \<bar>of_int (round_half_even (x / ?u)) - x / ?u\<bar> * ?u"
    using u by (simp add: abs_mult)
  also have "\<dots> \<le> (1 / 2) * ?u"
    using round_half_even_near [of "x / ?u"] u by (intro mult_right_mono) simp_all
  finally show ?thesis by simp
qed

section \<open>The search finds the first node in pre-order\<close>

text \<open>
  \<open>passes g r\<close>: the search looks at \<open>r\<close>, which has a primary product, and goes on,
  because that product is not named \<open>g\<close>. \<open>recipes_before up\<close> lists the recipes of the
  nodes that come before the visited node in the pre-order of the whole tree: its
  ancestors and the subtrees of the children to the left of each.
\<close>

definition passes :: "string \<Rightarrow> recipe \<Rightarrow> bool" where
  "passes g r = (case outputs r of [] \<Rightarrow> False | p # _ \<Rightarrow> name p \<noteq> g)"

definition recipes_of :: "node \<Rightarrow> recipe list" where
  "recipes_of n = map recipe (preorder n)"

fun recipes_before :: "frame list \<Rightarrow> recipe list" where
  "recipes_before [] = []"
| "recipes_before (Frame r q ls rs # up) = recipes_before up @ r # concat (map recipes_of ls)"

lemma recipes_of_Node [simp]: "recipes_of (Node r q cs) = r # concat (map recipes_of cs)"
  unfolding recipes_of_def by (simp add: map_concat comp_def)

lemma root_of_append: "root_of n (a @ b) = root_of (root_of n a) b"
  by (induction a arbitrary: n) auto

lemma recipes_before_append: "recipes_before (a @ b) = recipes_before b @ recipes_before a"
  by (induction a rule: recipes_before.induct) auto

lemma passes_product: "passes g r \<longleftrightarrow> (\<exists>p. product r = Inr p \<and> name p \<noteq> g)"
  by (auto simp: passes_def product_def split: list.splits)

lemma produces_product: "produces g r \<longleftrightarrow> (\<exists>p. product r = Inr p \<and> name p = g)"
  by (auto simp: produces_def product_def split: list.splits)

lemma find_none_iff:
  "find_node_by_product n up g = Inr None \<longleftrightarrow> (\<forall>r \<in> set (recipes_of n). passes g r)"
  "find_in_children r q ls cs up g = Inr None \<longleftrightarrow> (\<forall>c \<in> set cs. \<forall>r \<in> set (recipes_of c). passes g r)"
proof (induction n up g and r q ls cs up g rule: find_node_by_product_find_in_children.induct)
  case (1 r q cs up g)
  then show ?case
    by (auto simp: passes_product split: sum.splits)
next
  case (2 r q ls up g)
  then show ?case by simp
next
  case (3 r q ls c rs up g)
  then show ?case
    by (auto split: sum.splits option.splits)
qed

lemma find_in_children_skip:
  assumes "\<forall>c \<in> set xs. \<forall>r \<in> set (recipes_of c). passes g r"
  shows "find_in_children r q ls (xs @ ys) up g = find_in_children r q (ls @ xs) ys up g"
  using assms
proof (induction xs arbitrary: ls)
  case Nil
  then show ?case by simp
next
  case (Cons c xs)
  then have "find_node_by_product c (Frame r q ls (xs @ ys) # up) g = Inr None"
    by (simp add: find_none_iff)
  with Cons show ?case by simp
qed

lemma find_descend:
  assumes "\<forall>r \<in> set (recipes_before inner). passes g r"
    and "find_node_by_product m (inner @ outer) g = Inr (Some loc)"
  shows "find_node_by_product (root_of m inner) outer g = Inr (Some loc)"
  using assms
proof (induction inner arbitrary: m)
  case Nil
  then show ?case by simp
next
  case (Cons f inner)
  obtain r q ls rs where f: "f = Frame r q ls rs" by (cases f)
  from Cons.prems(1) f obtain p where p: "product r = Inr p" "name p \<noteq> g"
    by (auto simp: passes_product)
  have ls: "\<forall>c \<in> set ls. \<forall>r \<in> set (recipes_of c). passes g r"
    using Cons.prems(1) f by auto
  have "find_node_by_product (plug m f) (inner @ outer) g
      = find_in_children r q [] (ls @ m # rs) (inner @ outer) g"
    using f p by simp
  also have "\<dots> = find_in_children r q ls (m # rs) (inner @ outer) g"
    using find_in_children_skip [OF ls, of r q "[]"] by simp
  also have "\<dots> = Inr (Some loc)"
    using Cons.prems(2) f by simp
  finally have "find_node_by_product (plug m f) (inner @ outer) g = Inr (Some loc)" .
  moreover have "\<forall>r \<in> set (recipes_before inner). passes g r"
    using Cons.prems(1) f by auto
  ultimately show ?case using Cons.IH by simp
qed

lemma find_complete:
  assumes "\<forall>r \<in> set (recipes_before inner). passes g r" and "produces g (recipe m)"
  shows "find_node_by_product (root_of m inner) outer g = Inr (Some (m, inner @ outer))"
proof -
  have "find_node_by_product m (inner @ outer) g = Inr (Some (m, inner @ outer))"
    using assms(2) by (cases m) (auto simp: produces_product)
  from find_descend [OF assms(1) this] show ?thesis .
qed

lemma find_sound:
  "find_node_by_product n up g = Inr (Some (m, up')) \<Longrightarrow>
     \<exists>inner. up' = inner @ up \<and> root_of m inner = n \<and> produces g (recipe m) \<and>
       (\<forall>r \<in> set (recipes_before inner). passes g r)"
  "find_in_children r q ls cs up g = Inr (Some (m, up')) \<Longrightarrow> passes g r \<Longrightarrow>
     \<forall>c \<in> set ls. \<forall>r \<in> set (recipes_of c). passes g r \<Longrightarrow>
     \<exists>inner. up' = inner @ up \<and> root_of m inner = Node r q (ls @ cs) \<and> produces g (recipe m) \<and>
       (\<forall>r \<in> set (recipes_before inner). passes g r)"
proof (induction n up g and r q ls cs up g arbitrary: m up' and m up'
    rule: find_node_by_product_find_in_children.induct)
  case (1 r q cs up g)
  from "1.prems" obtain p where p: "product r = Inr p"
    by (auto split: sum.splits)
  show ?case
  proof (cases "name p = g")
    case True
    with "1.prems" p have "m = Node r q cs" "up' = up" by auto
    with True p show ?thesis by (auto simp: produces_product)
  next
    case False
    with "1.prems" p have "find_in_children r q [] cs up g = Inr (Some (m, up'))" by simp
    from "1.IH" [OF p False this] p False show ?thesis by (auto simp: passes_product)
  qed
next
  case (2 r q ls up g)
  then show ?case by simp
next
  case (3 r q ls c rs up g)
  show ?case
  proof (cases "find_node_by_product c (Frame r q ls rs # up) g")
    case (Inl e)
    with "3.prems" show ?thesis by simp
  next
    case (Inr res)
    show ?thesis
    proof (cases res)
      case None
      with Inr have c: "\<forall>r \<in> set (recipes_of c). passes g r"
        by (simp add: find_none_iff)
      from "3.prems"(1) Inr None have "find_in_children r q (ls @ [c]) rs up g = Inr (Some (m, up'))"
        by simp
      from "3.IH"(2) [OF Inr None this "3.prems"(2)] c "3.prems"(3) show ?thesis by auto
    next
      case (Some loc)
      with Inr "3.prems"(1) have loc: "loc = (m, up')" by simp
      from "3.IH"(1) [of m up'] Inr Some loc obtain inner where
        inner: "up' = inner @ Frame r q ls rs # up" "root_of m inner = c" "produces g (recipe m)"
          "\<forall>r \<in> set (recipes_before inner). passes g r"
        by auto
      have "up' = (inner @ [Frame r q ls rs]) @ up" using inner(1) by simp
      moreover have "root_of m (inner @ [Frame r q ls rs]) = Node r q (ls @ c # rs)"
        using inner(2) by (simp add: root_of_append)
      moreover have "\<forall>x \<in> set (recipes_before (inner @ [Frame r q ls rs])). passes g x"
        using inner(4) "3.prems"(2,3) by (auto simp: recipes_before_append)
      ultimately show ?thesis using inner(3) by blast
    qed
  qed
qed

text \<open>
  An exception of the search is the IndexError of the first recipe in pre-order that
  does not pass.
\<close>

lemma find_error:
  "find_node_by_product n up g = Inl e \<Longrightarrow>
     \<exists>before r after. recipes_of n = before @ r # after \<and> (\<forall>x \<in> set before. passes g x) \<and>
       outputs r = [] \<and> e = IndexError"
  "find_in_children r0 q ls cs up g = Inl e \<Longrightarrow>
     \<exists>before r after. concat (map recipes_of cs) = before @ r # after \<and>
       (\<forall>x \<in> set before. passes g x) \<and> outputs r = [] \<and> e = IndexError"
proof (induction n up g and r0 q ls cs up g rule: find_node_by_product_find_in_children.induct)
  case (1 r q cs up g)
  show ?case
  proof (cases "product r")
    case (Inl e')
    then have "outputs r = []" "e' = IndexError"
      by (auto simp: product_def split: list.splits)
    moreover from Inl "1.prems" have "e = e'" by simp
    moreover have "recipes_of (Node r q cs) = [] @ r # concat (map recipes_of cs)" by simp
    ultimately show ?thesis by (metis empty_iff list.set(1))
  next
    case (Inr p)
    with "1.prems" have ne: "name p \<noteq> g" and c: "find_in_children r q [] cs up g = Inl e"
      by (auto split: if_splits)
    from "1.IH" [OF Inr ne c] obtain before r' after where
      d: "concat (map recipes_of cs) = before @ r' # after" "\<forall>x \<in> set before. passes g x"
        "outputs r' = []" "e = IndexError"
      by blast
    have "recipes_of (Node r q cs) = (r # before) @ r' # after" using d(1) by simp
    moreover have "\<forall>x \<in> set (r # before). passes g x"
      using d(2) Inr ne by (auto simp: passes_product)
    ultimately show ?thesis using d(3,4) by blast
  qed
next
  case (2 r q ls up g)
  then show ?case by simp
next
  case (3 r q ls c rs up g)
  show ?case
  proof (cases "find_node_by_product c (Frame r q ls rs # up) g")
    case (Inl e')
    with "3.prems" have "e' = e" by simp
    with "3.IH"(1) Inl obtain before r' after where
      d: "recipes_of c = before @ r' # after" "\<forall>x \<in> set before. passes g x"
        "outputs r' = []" "e = IndexError"
      by blast
    have "concat (map recipes_of (c # rs)) = before @ r' # (after @ concat (map recipes_of rs))"
      using d(1) by simp
    with d(2,3,4) show ?thesis by blast
  next
    case (Inr res)
    show ?thesis
    proof (cases res)
      case None
      with Inr have c: "\<forall>x \<in> set (recipes_of c). passes g x"
        by (simp add: find_none_iff)
      from "3.prems" Inr None have "find_in_children r q (ls @ [c]) rs up g = Inl e" by simp
      from "3.IH"(2) [OF Inr None this] obtain before r' after where
        d: "concat (map recipes_of rs) = before @ r' # after" "\<forall>x \<in> set before. passes g x"
          "outputs r' = []" "e = IndexError"
        by blast
      have "concat (map recipes_of (c # rs)) = (recipes_of c @ before) @ r' # after"
        using d(1) by simp
      moreover have "\<forall>x \<in> set (recipes_of c @ before). passes g x" using c d(2) by auto
      ultimately show ?thesis using d(3,4) by blast
    next
      case (Some loc)
      with Inr "3.prems" show ?thesis by simp
    qed
  qed
qed

lemma first_not_passing:
  assumes "before @ r # after = before' @ r' # after'"
    and "\<forall>x \<in> set before. passes g x" "\<not> passes g r"
    and "\<forall>x \<in> set before'. passes g x" "\<not> passes g r'"
  shows "before = before' \<and> r = r'"
proof -
  have "takeWhile (passes g) (before @ r # after) = before"
    using assms(2,3) by (simp add: takeWhile_tail)
  moreover have "takeWhile (passes g) (before' @ r' # after') = before'"
    using assms(4,5) by (simp add: takeWhile_tail)
  ultimately have "before = before'" using assms(1) by simp
  with assms(1) show ?thesis by simp
qed

text \<open>The node a chain of ancestors leads to sits in the pre-order of the whole tree
  right after the nodes that \<open>recipes_before\<close> lists.\<close>

lemma preorder_Node: "preorder n = n # concat (map preorder (children n))"
  by (cases n) simp

lemma preorder_root_of:
  "\<exists>X after. preorder (root_of m inner) = X @ preorder m @ after \<and>
     map recipe X = recipes_before inner"
proof (induction inner arbitrary: m)
  case Nil
  have "preorder m = [] @ preorder m @ []" by simp
  then show ?case by (metis list.simps(8) recipes_before.simps(1) root_of.simps(1))
next
  case (Cons f inner)
  obtain r q ls rs where f: "f = Frame r q ls rs" by (cases f)
  from Cons [of "plug m f"] obtain X after where
    X: "preorder (root_of (plug m f) inner) = X @ preorder (plug m f) @ after"
      "map recipe X = recipes_before inner"
    by blast
  let ?X = "X @ plug m f # concat (map preorder ls)"
  let ?after = "concat (map preorder rs) @ after"
  have "preorder (root_of m (f # inner)) = ?X @ preorder m @ ?after"
    using X(1) f by simp
  moreover have "map recipe ?X = recipes_before (f # inner)"
    using X(2) f by (simp add: recipes_of_def [abs_def] map_concat comp_def)
  ultimately show ?case by blast
qed

lemma nth_preorder_root_of:
  "preorder (root_of m inner) ! length (recipes_before inner) = m"
proof -
  from preorder_root_of [of m inner] obtain X after where
    X: "preorder (root_of m inner) = X @ preorder m @ after" "map recipe X = recipes_before inner"
    by blast
  from X(2) have "length X = length (recipes_before inner)" by (metis length_map)
  with X(1) show ?thesis by (simp add: nth_append preorder_Node [of m])
qed

lemma recipes_of_root_of:
  "\<exists>after. recipes_of (root_of m inner) = recipes_before inner @ recipe m # after"
proof -
  from preorder_root_of [of m inner] obtain X after where
    X: "preorder (root_of m inner) = X @ preorder m @ after" "map recipe X = recipes_before inner"
    by blast
  then show ?thesis
    unfolding recipes_of_def by (simp add: preorder_Node [of m])
qed

text \<open>
  The search in full: it returns \<^verbatim>\<open>None\<close> when every recipe passes; otherwise it stops
  at the first recipe in pre-order that does not pass, with the node at that position
  when the recipe produces the good, and with IndexError when it has no output.
\<close>

lemma find_first:
  assumes "recipes_of n = before @ r # after" "\<forall>x \<in> set before. passes g x" "produces g r"
  shows "\<exists>m inner. find_node_by_product n up g = Inr (Some (m, inner @ up)) \<and>
     root_of m inner = n \<and> recipe m = r \<and> recipes_before inner = before \<and>
     m = preorder n ! length before"
proof -
  have np: "\<not> passes g r"
    using assms(3) by (auto simp: passes_product produces_product)
  show ?thesis
  proof (cases "find_node_by_product n up g")
    case (Inl e)
    from find_error(1) [OF Inl] obtain before' r' after' where
      d: "recipes_of n = before' @ r' # after'" "\<forall>x \<in> set before'. passes g x" "outputs r' = []"
      by blast
    from d(3) have "\<not> passes g r'" by (simp add: passes_def)
    moreover have "before @ r # after = before' @ r' # after'" using assms(1) d(1) by simp
    ultimately have "r = r'" using first_not_passing [OF _ assms(2) np d(2)] by blast
    with d(3) assms(3) show ?thesis by (simp add: produces_def)
  next
    case (Inr res)
    show ?thesis
    proof (cases res)
      case None
      with Inr have "\<forall>x \<in> set (recipes_of n). passes g x" by (simp add: find_none_iff)
      with assms(1) np show ?thesis by simp
    next
      case (Some loc)
      obtain m up' where loc: "loc = (m, up')" by (cases loc)
      from find_sound(1) [of n up g m up'] Inr Some loc obtain inner where
        i: "up' = inner @ up" "root_of m inner = n" "produces g (recipe m)"
          "\<forall>x \<in> set (recipes_before inner). passes g x"
        by auto
      from recipes_of_root_of [of m inner] i(2) obtain after' where
        a: "recipes_of n = recipes_before inner @ recipe m # after'" by auto
      have "\<not> passes g (recipe m)"
        using i(3) by (auto simp: passes_product produces_product)
      moreover have "before @ r # after = recipes_before inner @ recipe m # after'"
        using assms(1) a by simp
      ultimately have eq: "before = recipes_before inner" "r = recipe m"
        using first_not_passing [OF _ assms(2) np i(4)] by blast+
      from nth_preorder_root_of [of m inner] i(2) eq(1)
      have "m = preorder n ! length before" by simp
      with Inr Some loc i(1,2) eq show ?thesis by simp
    qed
  qed
qed

lemma find_index_error:
  assumes "recipes_of n = before @ r # after" "\<forall>x \<in> set before. passes g x" "outputs r = []"
  shows "find_node_by_product n up g = Inl IndexError"
proof -
  have np: "\<not> passes g r" using assms(3) by (simp add: passes_def)
  show ?thesis
  proof (cases "find_node_by_product n up g")
    case (Inl e)
    from find_error(1) [OF Inl] show ?thesis using Inl by auto
  next
    case (Inr res)
    show ?thesis
    proof (cases res)
      case None
      with Inr have "\<forall>x \<in> set (recipes_of n). passes g x" by (simp add: find_none_iff)
      with assms(1) np show ?thesis by simp
    next
      case (Some loc)
      obtain m up' where loc: "loc = (m, up')" by (cases loc)
      from find_sound(1) [of n up g m up'] Inr Some loc obtain inner where
        i: "up' = inner @ up" "root_of m inner = n" "produces g (recipe m)"
          "\<forall>x \<in> set (recipes_before inner). passes g x"
        by auto
      from recipes_of_root_of [of m inner] i(2) obtain after' where
        a: "recipes_of n = recipes_before inner @ recipe m # after'" by auto
      have "\<not> passes g (recipe m)"
        using i(3) by (auto simp: passes_product produces_product)
      moreover have "before @ r # after = recipes_before inner @ recipe m # after'"
        using assms(1) a by simp
      ultimately have "r = recipe m"
        using first_not_passing [OF _ assms(2) np i(4)] by blast
      with i(3) assms(3) show ?thesis by (simp add: produces_def)
    qed
  qed
qed

section \<open>What a call of scale writes\<close>

text \<open>
  \<open>shape\<close> forgets the quantities of a tree: two trees of the same shape have the same
  recipes at the same places. \<open>state_of\<close> is the state a call leaves behind, whether it
  returns or raises.
\<close>

fun shape :: "node \<Rightarrow> node" where
  "shape (Node r q cs) = Node r 0 (map shape cs)"

fun shape_frame :: "frame \<Rightarrow> frame" where
  "shape_frame (Frame r q ls rs) = Frame r 0 (map shape ls) (map shape rs)"

definition state_of :: "(error \<times> 'a) + 'a \<Rightarrow> 'a" where
  "state_of res = (case res of Inl (e, s) \<Rightarrow> s | Inr s \<Rightarrow> s)"

text \<open>
  The writes of \<^verbatim>\<open>scale\<close>, in the order in which the code makes them, read off a tree
  given by the anchor \<open>n\<close> and its chain of ancestors \<open>up\<close>. \<open>Write_anchor r q\<close>: the anchor,
  with recipe \<open>r\<close>, has quantity \<open>q\<close>. \<open>Write_child pr pq r q\<close>: a node with recipe \<open>r\<close> has
  quantity \<open>q\<close>, under a parent with recipe \<open>pr\<close> and quantity \<open>pq\<close>; it is written by
  \<^verbatim>\<open>_scale_node_by_product\<close>. \<open>Write_parent pr pq r q\<close>: a node with recipe \<open>pr\<close> has
  quantity \<open>pq\<close>, above a child with recipe \<open>r\<close> and quantity \<open>q\<close>; it is written by
  \<^verbatim>\<open>_scale_node_by_ingredient\<close>. Every node of the whole tree is the target of exactly one
  write: first the anchor, then the nodes below it in pre-order, then each ancestor,
  innermost first, each followed by the subtrees of its other children.
\<close>

datatype assignment =
    Write_anchor recipe real
  | Write_child recipe real recipe real
  | Write_parent recipe real recipe real

fun child_writes :: "recipe \<Rightarrow> real \<Rightarrow> node \<Rightarrow> assignment list"
  and children_writes :: "recipe \<Rightarrow> real \<Rightarrow> node list \<Rightarrow> assignment list"
where
  "child_writes pr pq (Node r q cs) = Write_child pr pq r q # children_writes r q cs"
| "children_writes pr pq [] = []"
| "children_writes pr pq (c # cs) = child_writes pr pq c @ children_writes pr pq cs"

fun parent_writes :: "node \<Rightarrow> frame list \<Rightarrow> assignment list" where
  "parent_writes m [] = []"
| "parent_writes m (Frame r q ls rs # up) =
     Write_parent r q (recipe m) (node_quantity m)
       # children_writes r q ls @ children_writes r q rs @ parent_writes (Node r q (ls @ m # rs)) up"

definition writes :: "node \<Rightarrow> frame list \<Rightarrow> assignment list" where
  "writes n up =
     Write_anchor (recipe n) (node_quantity n)
       # children_writes (recipe n) (node_quantity n) (children n) @ parent_writes n up"

text \<open>
  The quantity a write is about, and the value the code computes for it, or the
  exception it raises instead: for the anchor from the target rate \<open>x\<close>, for a node below
  its parent from the parent's quantity and the first input of the parent named like
  the node's product, for a parent from its child's quantity. A write is \<open>written\<close> when
  the quantity in the tree is the computed value.
\<close>

fun count :: "assignment \<Rightarrow> real" where
  "count (Write_anchor r q) = q"
| "count (Write_child pr pq r q) = q"
| "count (Write_parent pr pq r q) = pq"

fun computed :: "real \<Rightarrow> assignment \<Rightarrow> error + real" where
  "computed x (Write_anchor r q) =
     (case product r of
        Inl e \<Rightarrow> Inl e
      | Inr p \<Rightarrow> if quantity p = 0 then Inl ZeroDivisionError else Inr (fdiv x (quantity p)))"
| "computed x (Write_child pr pq r q) =
     (case product r of
        Inl e \<Rightarrow> Inl e
      | Inr p \<Rightarrow>
          (case find (\<lambda>ingredient. name ingredient = name p) (inputs pr) of
             None \<Rightarrow> Inl ValueError
           | Some ingredient \<Rightarrow>
               if quantity p = 0 then Inl ZeroDivisionError
               else Inr (fdiv (fmul (quantity ingredient) pq) (quantity p))))"
| "computed x (Write_parent pr pq r q) =
     (case product r of
        Inl e \<Rightarrow> Inl e
      | Inr p \<Rightarrow>
          (case find (\<lambda>ingredient. name ingredient = name p) (inputs pr) of
             None \<Rightarrow> Inl ValueError
           | Some ingredient \<Rightarrow>
               if quantity ingredient = 0 then Inl ZeroDivisionError
               else Inr (fdiv (fmul (quantity p) q) (quantity ingredient))))"

definition written :: "real \<Rightarrow> assignment \<Rightarrow> bool" where
  "written x w = (computed x w = Inr (count w))"

text \<open>
  A run that raised \<open>e\<close> has stopped at some write: the writes before it are written, the
  one it stopped at raises \<open>e\<close>, and the quantities from there on are the old ones \<open>T\<close>.
\<close>

definition stopped :: "real \<Rightarrow> error \<Rightarrow> assignment list \<Rightarrow> real list \<Rightarrow> bool" where
  "stopped x e W T \<longleftrightarrow>
     length W = length T \<and>
     (\<exists>k < length W. (\<forall>i < k. written x (W ! i)) \<and> computed x (W ! k) = Inl e \<and>
        (\<forall>i. k \<le> i \<and> i < length W \<longrightarrow> count (W ! i) = T ! i))"

fun frame_counts :: "frame list \<Rightarrow> real list" where
  "frame_counts [] = []"
| "frame_counts (Frame r q ls rs # up) =
     q # map node_quantity (concat (map preorder ls))
       @ map node_quantity (concat (map preorder rs)) @ frame_counts up"

text \<open>
  A node is linked to its parent when its quantity is the one computed from the
  parent's, or the parent's quantity is the one computed from the node's. A tree is
  consistent when every node that has a parent is linked to it.
\<close>

definition linked :: "recipe \<Rightarrow> real \<Rightarrow> node \<Rightarrow> bool" where
  "linked pr pq c =
     (case product (recipe c) of
        Inl e \<Rightarrow> False
      | Inr p \<Rightarrow>
          (case find (\<lambda>ingredient. name ingredient = name p) (inputs pr) of
             None \<Rightarrow> False
           | Some ingredient \<Rightarrow>
               (quantity p \<noteq> 0 \<and>
                  node_quantity c = fdiv (fmul (quantity ingredient) pq) (quantity p)) \<or>
               (quantity ingredient \<noteq> 0 \<and>
                  pq = fdiv (fmul (quantity p) (node_quantity c)) (quantity ingredient))))"

fun consistent :: "node \<Rightarrow> bool" where
  "consistent (Node r q cs) = (\<forall>c \<in> set cs. linked r q c \<and> consistent c)"

lemma state_of_simps [simp]: "state_of (Inl (e, s)) = s" "state_of (Inr s) = s"
  by (simp_all add: state_of_def)

lemma recipes_of_shape: "recipes_of (shape n) = recipes_of n"
proof (induction n rule: shape.induct)
  case (1 r q cs)
  have "map (\<lambda>c. recipes_of (shape c)) cs = map recipes_of cs"
    by (rule map_cong [OF refl]) (rule 1)
  then have "concat (map (\<lambda>c. recipes_of (shape c)) cs) = concat (map recipes_of cs)"
    by (rule arg_cong)
  then show ?case by (simp add: comp_def)
qed

lemma recipes_of_shapes:
  "map shape xs = map shape ys \<Longrightarrow> concat (map recipes_of xs) = concat (map recipes_of ys)"
proof (induction xs arbitrary: ys)
  case Nil
  then show ?case by simp
next
  case (Cons x xs)
  then obtain y ys' where ys: "ys = y # ys'" "shape x = shape y" "map shape xs = map shape ys'"
    by (cases ys) auto
  have "recipes_of x = recipes_of y"
    using ys(2) recipes_of_shape [of x] recipes_of_shape [of y] by simp
  with Cons.IH [OF ys(3)] ys(1) show ?case by simp
qed

lemma recipes_before_shape:
  "map shape_frame up' = map shape_frame up \<Longrightarrow> recipes_before up' = recipes_before up"
proof (induction up arbitrary: up')
  case Nil
  then show ?case by simp
next
  case (Cons f up)
  then obtain f' up'' where up': "up' = f' # up''" "shape_frame f' = shape_frame f"
      "map shape_frame up'' = map shape_frame up"
    by (cases up') auto
  obtain r q ls rs where f: "f = Frame r q ls rs" by (cases f)
  obtain r' q' ls' rs' where f': "f' = Frame r' q' ls' rs'" by (cases f')
  from up'(2) f f' have r: "r' = r" and ls: "map shape ls' = map shape ls" by auto
  from Cons.IH [OF up'(3)] recipes_of_shapes [OF ls] r up'(1) f f' show ?case
    by simp
qed

lemma shape_root_of:
  "shape n' = shape n \<Longrightarrow> map shape_frame up' = map shape_frame up \<Longrightarrow>
     shape (root_of n' up') = shape (root_of n up)"
proof (induction up arbitrary: up' n n')
  case Nil
  then show ?case by simp
next
  case (Cons f up)
  then obtain f' up'' where up': "up' = f' # up''" "shape_frame f' = shape_frame f"
      "map shape_frame up'' = map shape_frame up"
    by (cases up') auto
  have "shape (plug n' f') = shape (plug n f)"
    using up'(2) Cons.prems(1) by (cases f; cases f') auto
  from Cons.IH [OF this up'(3)] up'(1) show ?case by simp
qed


lemma count_child_writes:
  "map count (child_writes pr pq c) = map node_quantity (preorder c)"
  "map count (children_writes pr pq cs) = map node_quantity (concat (map preorder cs))"
  by (induction pr pq c and pr pq cs rule: child_writes_children_writes.induct) simp_all

lemma count_parent_writes: "map count (parent_writes m up) = frame_counts up"
  by (induction m up rule: parent_writes.induct) (simp_all add: count_child_writes)

lemma length_child_writes:
  "length (child_writes pr pq c) = length (preorder c)"
  "length (children_writes pr pq cs) = length (concat (map preorder cs))"
  by (metis count_child_writes(1) length_map) (metis count_child_writes(2) length_map)

lemma stopped_head:
  assumes "computed x w = Inl e" "map count (w # B) = T"
  shows "stopped x e (w # B) T"
proof -
  have len: "length (w # B) = length T" using assms(2) by (metis length_map)
  have o: "\<forall>i. 0 \<le> i \<and> i < length (w # B) \<longrightarrow> count ((w # B) ! i) = T ! i"
    using assms(2) by (metis nth_map)
  have k: "(0::nat) < length (w # B)" by simp
  have w0: "\<forall>i < (0::nat). written x ((w # B) ! i)" by simp
  have c: "computed x ((w # B) ! 0) = Inl e" using assms(1) by simp
  from len k w0 c o show ?thesis unfolding stopped_def by blast
qed

lemma stopped_left:
  assumes "stopped x e A TA" "map count B = TB"
  shows "stopped x e (A @ B) (TA @ TB)"
proof -
  from assms(1) obtain k where len: "length A = length TA" and k: "k < length A"
    and w: "\<forall>i < k. written x (A ! i)" and c: "computed x (A ! k) = Inl e"
    and o: "\<forall>i. k \<le> i \<and> i < length A \<longrightarrow> count (A ! i) = TA ! i"
    unfolding stopped_def by blast
  have lenB: "length B = length TB" using assms(2) by (metis length_map)
  have 1: "length (A @ B) = length (TA @ TB)" using len lenB by simp
  have 2: "k < length (A @ B)" using k by simp
  have 3: "\<forall>i < k. written x ((A @ B) ! i)" using w k by (simp add: nth_append)
  have 4: "computed x ((A @ B) ! k) = Inl e" using c k by (simp add: nth_append)
  have 5: "\<forall>i. k \<le> i \<and> i < length (A @ B) \<longrightarrow> count ((A @ B) ! i) = (TA @ TB) ! i"
  proof (intro allI impI)
    fix i assume i: "k \<le> i \<and> i < length (A @ B)"
    show "count ((A @ B) ! i) = (TA @ TB) ! i"
    proof (cases "i < length A")
      case True
      with o i len show ?thesis by (simp add: nth_append)
    next
      case False
      with i have "i - length A < length B" by auto
      then have "count (B ! (i - length A)) = TB ! (i - length A)"
        using assms(2) by (metis nth_map)
      with False len show ?thesis by (simp add: nth_append)
    qed
  qed
  from 1 2 3 4 5 show ?thesis unfolding stopped_def by blast
qed

lemma stopped_right:
  assumes "list_all (written x) A" "length A = length TA" "stopped x e B TB"
  shows "stopped x e (A @ B) (TA @ TB)"
proof -
  from assms(3) obtain k where len: "length B = length TB" and k: "k < length B"
    and w: "\<forall>i < k. written x (B ! i)" and c: "computed x (B ! k) = Inl e"
    and o: "\<forall>i. k \<le> i \<and> i < length B \<longrightarrow> count (B ! i) = TB ! i"
    unfolding stopped_def by blast
  let ?k = "length A + k"
  have 1: "length (A @ B) = length (TA @ TB)" using len assms(2) by simp
  have 2: "?k < length (A @ B)" using k by simp
  have 3: "\<forall>i < ?k. written x ((A @ B) ! i)"
  proof (intro allI impI)
    fix i assume i: "i < ?k"
    show "written x ((A @ B) ! i)"
    proof (cases "i < length A")
      case True
      with assms(1) show ?thesis by (simp add: nth_append list_all_length)
    next
      case False
      with i have "i - length A < k" by simp
      with w False show ?thesis by (simp add: nth_append)
    qed
  qed
  have 4: "computed x ((A @ B) ! ?k) = Inl e" using c by (simp add: nth_append)
  have 5: "\<forall>i. ?k \<le> i \<and> i < length (A @ B) \<longrightarrow> count ((A @ B) ! i) = (TA @ TB) ! i"
  proof (intro allI impI)
    fix i assume i: "?k \<le> i \<and> i < length (A @ B)"
    then have "k \<le> i - length A \<and> i - length A < length B" by auto
    with o have "count (B ! (i - length A)) = TB ! (i - length A)" by blast
    moreover from i have "\<not> i < length A" by simp
    ultimately show "count ((A @ B) ! i) = (TA @ TB) ! i"
      using assms(2) by (simp add: nth_append)
  qed
  from 1 2 3 4 5 show ?thesis unfolding stopped_def by blast
qed

lemma length_preorder_shape: "length (preorder (shape n)) = length (preorder n)"
proof (induction n)
  case (Node r q cs)
  have "length (concat (map preorder (map shape cs))) = length (concat (map preorder cs))"
    using Node by (induction cs) auto
  then show ?case by simp
qed

lemma length_preorder_eq: "shape a = shape b \<Longrightarrow> length (preorder a) = length (preorder b)"
  by (metis length_preorder_shape)

lemma length_preorders_eq:
  "map shape xs = map shape ys \<Longrightarrow>
     length (concat (map preorder xs)) = length (concat (map preorder ys))"
proof (induction xs arbitrary: ys)
  case Nil
  then show ?case by simp
next
  case (Cons x xs)
  then obtain y ys' where ys: "ys = y # ys'" "shape x = shape y" "map shape xs = map shape ys'"
    by (cases ys) auto
  from Cons.IH [OF ys(3)] length_preorder_eq [OF ys(2)] ys(1) show ?case by simp
qed

lemma stopped_Cons:
  assumes "written x w" "stopped x e B TB"
  shows "stopped x e (w # B) (t # TB)"
  using stopped_right [of x "[w]" "[t]" e B TB] assms by simp

text \<open>The downward pass, whether it returns or raises.\<close>

lemma scale_by_product_writes_both:
  "(\<forall>c'. scale_node_by_product pr pq c = Inr c' \<longrightarrow>
      shape c' = shape c \<and> list_all (written x) (child_writes pr pq c')) \<and>
   (\<forall>e c'. scale_node_by_product pr pq c = Inl (e, c') \<longrightarrow>
      shape c' = shape c \<and>
      stopped x e (child_writes pr pq c') (map node_quantity (preorder c)))"
  "(\<forall>cs'. scale_children_by_product pr pq cs = Inr cs' \<longrightarrow>
      map shape cs' = map shape cs \<and> list_all (written x) (children_writes pr pq cs')) \<and>
   (\<forall>e cs'. scale_children_by_product pr pq cs = Inl (e, cs') \<longrightarrow>
      map shape cs' = map shape cs \<and>
      stopped x e (children_writes pr pq cs') (map node_quantity (concat (map preorder cs))))"
proof (induction pr pq c and pr pq cs rule: scale_node_by_product_scale_children_by_product.induct)
  case (1 mr mq r q cs)
  have head: "stopped x e (child_writes mr mq (Node r q cs)) (map node_quantity (preorder (Node r q cs)))"
    if "computed x (Write_child mr mq r q) = Inl e" for e
    using stopped_head [OF that, of "children_writes r q cs"]
      count_child_writes(1) [of mr mq "Node r q cs"] by simp
  show ?case
  proof (cases "product r")
    case (Inl e0)
    with head [of e0] show ?thesis by simp
  next
    case p: (Inr p)
    show ?thesis
    proof (cases "find (\<lambda>ingredient. name ingredient = name p) (inputs mr)")
      case None
      with p head [of ValueError] show ?thesis by simp
    next
      case i: (Some ing)
      show ?thesis
      proof (cases "quantity p = 0")
        case True
        with p i head [of ZeroDivisionError] show ?thesis by simp
      next
        case nz: False
        let ?q = "fdiv (fmul (quantity ing) mq) (quantity p)"
        note IH = "1.IH" [OF p i refl nz refl]
        have w: "written x (Write_child mr mq r ?q)"
          using p i nz by (simp add: written_def)
        show ?thesis
        proof (cases "scale_children_by_product r ?q cs")
          case (Inl a)
          obtain e cs' where a: "a = (e, cs')" by (cases a)
          from IH Inl a have s: "map shape cs' = map shape cs"
            and st: "stopped x e (children_writes r ?q cs') (map node_quantity (concat (map preorder cs)))"
            by simp_all
          have res: "scale_node_by_product mr mq (Node r q cs) = Inl (e, Node r ?q cs')"
            using p i nz Inl a by (simp add: Let_def)
          have "stopped x e (child_writes mr mq (Node r ?q cs'))
              (map node_quantity (preorder (Node r q cs)))"
            using stopped_Cons [OF w st, of q] by (simp add: map_concat)
          with res s show ?thesis by simp
        next
          case (Inr cs')
          from IH Inr have s: "map shape cs' = map shape cs"
            and al: "list_all (written x) (children_writes r ?q cs')"
            by simp_all
          have res: "scale_node_by_product mr mq (Node r q cs) = Inr (Node r ?q cs')"
            using p i nz Inr by (simp add: Let_def)
          with s al w show ?thesis by simp
        qed
      qed
    qed
  qed
next
  case (2 mr mq)
  show ?case by simp
next
  case (3 mr mq c cs)
  show ?case
  proof (cases "scale_node_by_product mr mq c")
    case (Inl a)
    obtain e c' where a: "a = (e, c')" by (cases a)
    from "3.IH"(1) Inl a have s: "shape c' = shape c"
      and st: "stopped x e (child_writes mr mq c') (map node_quantity (preorder c))"
      by simp_all
    have res: "scale_children_by_product mr mq (c # cs) = Inl (e, c' # cs)"
      using Inl a by simp
    have "stopped x e (children_writes mr mq (c' # cs))
        (map node_quantity (concat (map preorder (c # cs))))"
      using stopped_left [OF st count_child_writes(2) [of mr mq cs]] by simp
    with res s show ?thesis by simp
  next
    case (Inr c')
    from "3.IH"(1) Inr have s: "shape c' = shape c"
      and al: "list_all (written x) (child_writes mr mq c')"
      by simp_all
    have len: "length (child_writes mr mq c') = length (map node_quantity (preorder c))"
      using length_preorder_eq [OF s] by (simp add: length_child_writes)
    note IH = "3.IH"(2) [OF Inr]
    show ?thesis
    proof (cases "scale_children_by_product mr mq cs")
      case (Inl a)
      obtain e cs' where a: "a = (e, cs')" by (cases a)
      from IH Inl a have s': "map shape cs' = map shape cs"
        and st: "stopped x e (children_writes mr mq cs') (map node_quantity (concat (map preorder cs)))"
        by simp_all
      have res: "scale_children_by_product mr mq (c # cs) = Inl (e, c' # cs')"
        using Inr Inl a by simp
      have "stopped x e (children_writes mr mq (c' # cs'))
          (map node_quantity (concat (map preorder (c # cs))))"
        using stopped_right [OF al len st] by simp
      with res s s' show ?thesis by simp
    next
      case Inr': (Inr cs')
      from IH Inr' have s': "map shape cs' = map shape cs"
        and al': "list_all (written x) (children_writes mr mq cs')"
        by simp_all
      have res: "scale_children_by_product mr mq (c # cs) = Inr (c' # cs')"
        using Inr Inr' by simp
      with s s' al al' show ?thesis by simp
    qed
  qed
qed

lemma scale_by_product_writes:
  "scale_node_by_product pr pq c = Inr c' \<Longrightarrow>
     shape c' = shape c \<and> list_all (written x) (child_writes pr pq c')"
  "scale_node_by_product pr pq c = Inl (e, c') \<Longrightarrow>
     shape c' = shape c \<and> stopped x e (child_writes pr pq c') (map node_quantity (preorder c))"
  "scale_children_by_product pr pq cs = Inr cs' \<Longrightarrow>
     map shape cs' = map shape cs \<and> list_all (written x) (children_writes pr pq cs')"
  "scale_children_by_product pr pq cs = Inl (e, cs') \<Longrightarrow>
     map shape cs' = map shape cs \<and>
     stopped x e (children_writes pr pq cs') (map node_quantity (concat (map preorder cs)))"
  using scale_by_product_writes_both(1) [where pr = pr and pq = pq and c = c and x = x]
    scale_by_product_writes_both(2) [where pr = pr and pq = pq and cs = cs and x = x]
  by blast+

text \<open>The upward pass, whether it returns or raises.\<close>

lemma scale_by_ingredient_writes_both:
  "(\<forall>up'. scale_node_by_ingredient up m = Inr up' \<longrightarrow>
      map shape_frame up' = map shape_frame up \<and> list_all (written x) (parent_writes m up')) \<and>
   (\<forall>e up'. scale_node_by_ingredient up m = Inl (e, up') \<longrightarrow>
      map shape_frame up' = map shape_frame up \<and>
      stopped x e (parent_writes m up') (frame_counts up))"
proof (induction up m rule: scale_node_by_ingredient.induct)
  case (1 m)
  show ?case by simp
next
  case (2 r q ls rs up m)
  let ?F = "Frame r q ls rs"
  have head: "stopped x e (parent_writes m (?F # up)) (frame_counts (?F # up))"
    if "computed x (Write_parent r q (recipe m) (node_quantity m)) = Inl e" for e
    using stopped_head [OF that, of "children_writes r q ls @ children_writes r q rs
        @ parent_writes (Node r q (ls @ m # rs)) up"]
      count_parent_writes [of m "?F # up"] by simp
  show ?case
  proof (cases "product (recipe m)")
    case (Inl e0)
    with head [of e0] show ?thesis by simp
  next
    case p: (Inr p)
    show ?thesis
    proof (cases "find (\<lambda>ingredient. name ingredient = name p) (inputs r)")
      case None
      with p head [of ValueError] show ?thesis by simp
    next
      case i: (Some ing)
      show ?thesis
      proof (cases "quantity ing = 0")
        case True
        with p i head [of ZeroDivisionError] show ?thesis by simp
      next
        case nz: False
        let ?q = "fdiv (fmul (quantity p) (node_quantity m)) (quantity ing)"
        have w: "written x (Write_parent r ?q (recipe m) (node_quantity m))"
          using p i nz by (simp add: written_def)
        show ?thesis
        proof (cases "scale_children_by_product r ?q ls")
          case (Inl a)
          obtain e ls' where a: "a = (e, ls')" by (cases a)
          from scale_by_product_writes(4) [of r ?q ls e ls' x] Inl a
          have s: "map shape ls' = map shape ls"
            and st: "stopped x e (children_writes r ?q ls') (map node_quantity (concat (map preorder ls)))"
            by simp_all
          have res: "scale_node_by_ingredient (?F # up) m = Inl (e, Frame r ?q ls' rs # up)"
            using p i nz Inl a by (simp add: Let_def)
          have "map count (children_writes r ?q rs @ parent_writes (Node r ?q (ls' @ m # rs)) up)
              = map node_quantity (concat (map preorder rs)) @ frame_counts up"
            by (simp add: count_child_writes count_parent_writes)
          from stopped_Cons [OF w stopped_left [OF st this], of q]
          have "stopped x e (parent_writes m (Frame r ?q ls' rs # up)) (frame_counts (?F # up))"
            by simp
          with res s show ?thesis by simp
        next
          case ls: (Inr ls')
          from scale_by_product_writes(3) [of r ?q ls ls' x] ls
          have s: "map shape ls' = map shape ls"
            and al: "list_all (written x) (children_writes r ?q ls')"
            by simp_all
          have len: "length (children_writes r ?q ls') = length (map node_quantity (concat (map preorder ls)))"
            using length_preorders_eq [OF s] by (simp add: length_child_writes)
          show ?thesis
          proof (cases "scale_children_by_product r ?q rs")
            case (Inl a)
            obtain e rs' where a: "a = (e, rs')" by (cases a)
            from scale_by_product_writes(4) [of r ?q rs e rs' x] Inl a
            have s': "map shape rs' = map shape rs"
              and st: "stopped x e (children_writes r ?q rs') (map node_quantity (concat (map preorder rs)))"
              by simp_all
            have res: "scale_node_by_ingredient (?F # up) m = Inl (e, Frame r ?q ls' rs' # up)"
              using p i nz ls Inl a by (simp add: Let_def)
            have "map count (parent_writes (Node r ?q (ls' @ m # rs')) up) = frame_counts up"
              by (simp add: count_parent_writes)
            from stopped_Cons [OF w stopped_right [OF al len stopped_left [OF st this]], of q]
            have "stopped x e (parent_writes m (Frame r ?q ls' rs' # up)) (frame_counts (?F # up))"
              by simp
            with res s s' show ?thesis by simp
          next
            case rs: (Inr rs')
            from scale_by_product_writes(3) [of r ?q rs rs' x] rs
            have s': "map shape rs' = map shape rs"
              and al': "list_all (written x) (children_writes r ?q rs')"
              by simp_all
            have len': "length (children_writes r ?q rs') = length (map node_quantity (concat (map preorder rs)))"
              using length_preorders_eq [OF s'] by (simp add: length_child_writes)
            note IH = "2.IH" [OF p refl i nz refl ls rs]
            show ?thesis
            proof (cases "scale_node_by_ingredient up (Node r ?q (ls' @ m # rs'))")
              case (Inl a)
              obtain e up1 where a: "a = (e, up1)" by (cases a)
              from IH Inl a have s1: "map shape_frame up1 = map shape_frame up"
                and st: "stopped x e (parent_writes (Node r ?q (ls' @ m # rs')) up1) (frame_counts up)"
                by simp_all
              have res: "scale_node_by_ingredient (?F # up) m = Inl (e, Frame r ?q ls' rs' # up1)"
                using p i nz ls rs Inl a by (simp add: Let_def)
              from stopped_Cons [OF w stopped_right [OF al len stopped_right [OF al' len' st]], of q]
              have "stopped x e (parent_writes m (Frame r ?q ls' rs' # up1)) (frame_counts (?F # up))"
                by simp
              with res s s' s1 show ?thesis by simp
            next
              case up1: (Inr up1)
              from IH up1 have s1: "map shape_frame up1 = map shape_frame up"
                and al1: "list_all (written x) (parent_writes (Node r ?q (ls' @ m # rs')) up1)"
                by simp_all
              have res: "scale_node_by_ingredient (?F # up) m = Inr (Frame r ?q ls' rs' # up1)"
                using p i nz ls rs up1 by (simp add: Let_def)
              with s s' s1 w al al' al1 show ?thesis by simp
            qed
          qed
        qed
      qed
    qed
  qed
qed

lemma scale_by_ingredient_writes:
  "scale_node_by_ingredient up m = Inr up' \<Longrightarrow>
     map shape_frame up' = map shape_frame up \<and> list_all (written x) (parent_writes m up')"
  "scale_node_by_ingredient up m = Inl (e, up') \<Longrightarrow>
     map shape_frame up' = map shape_frame up \<and>
     stopped x e (parent_writes m up') (frame_counts up)"
  using scale_by_ingredient_writes_both [where up = up and m = m and x = x] by blast+

text \<open>The state of the factory around the anchor.\<close>

lemma located_id:
  assumes "find_node f g = Inr (Some (n, up))"
  shows "located f n up = f"
proof -
  from find_sound(1) [of "map' f" "above f" g n up] assms obtain inner where
    i: "up = inner @ above f" "root_of n inner = map' f"
    by (auto simp: find_node_def)
  then show ?thesis by (simp add: located_def)
qed

lemma shape_recipe: "shape a = shape b \<Longrightarrow> recipe a = recipe b"
  by (cases a; cases b) simp

lemma find_located:
  assumes "find_node f g = Inr (Some (n, up))" "shape n' = shape n"
    "map shape_frame up' = map shape_frame up"
  shows "find_node (located f n' up') g = Inr (Some (n', up'))"
    and "registry (located f n' up') = registry f"
    and "shape (map' (located f n' up')) = shape (map' f)"
    and "map shape_frame (above (located f n' up')) = map shape_frame (above f)"
    and "root_of (map' (located f n' up')) (above (located f n' up')) = root_of n' up'"
proof -
  from find_sound(1) [of "map' f" "above f" g n up] assms(1) obtain inner where
    i: "up = inner @ above f" "root_of n inner = map' f" "produces g (recipe n)"
      "\<forall>r \<in> set (recipes_before inner). passes g r"
    by (auto simp: find_node_def)
  let ?k = "length up' - length (above f)"
  let ?inner = "take ?k up'"
  let ?above = "drop ?k up'"
  have len: "length up' = length up" using assms(3) by (metis length_map)
  then have k: "?k = length inner" using i(1) by simp
  have "map shape_frame ?inner = take ?k (map shape_frame up')" by (simp add: take_map)
  then have si: "map shape_frame ?inner = map shape_frame inner"
    using assms(3) i(1) k by simp
  have "map shape_frame ?above = drop ?k (map shape_frame up')" by (simp add: drop_map)
  then have sa: "map shape_frame ?above = map shape_frame (above f)"
    using assms(3) i(1) k by simp
  have m: "map' (located f n' up') = root_of n' ?inner" "above (located f n' up') = ?above"
    by (simp_all add: located_def)
  have "\<forall>r \<in> set (recipes_before ?inner). passes g r"
    using recipes_before_shape [OF si] i(4) by simp
  moreover have "produces g (recipe n')"
    using shape_recipe [OF assms(2)] i(3) by simp
  ultimately have "find_node_by_product (root_of n' ?inner) ?above g = Inr (Some (n', ?inner @ ?above))"
    by (rule find_complete)
  then show "find_node (located f n' up') g = Inr (Some (n', up'))"
    using m by (simp add: find_node_def)
  show "registry (located f n' up') = registry f" by (simp add: located_def)
  show "shape (map' (located f n' up')) = shape (map' f)"
    using shape_root_of [OF assms(2) si] m i(2) by simp
  show "map shape_frame (above (located f n' up')) = map shape_frame (above f)"
    using sa m by simp
  have "root_of n' (?inner @ ?above) = root_of (root_of n' ?inner) ?above"
    by (rule root_of_append)
  then show "root_of (map' (located f n' up')) (above (located f n' up')) = root_of n' up'"
    using m by simp
qed

lemma node_collapse: "Node (recipe n) (node_quantity n) (children n) = n"
  by (cases n) simp

text \<open>A call of \<^verbatim>\<open>scale\<close> that has found its anchor, whether it returns or raises.\<close>

lemma scale_result:
  assumes "find_node f g = Inr (Some (n, up))"
  shows "(\<forall>f'. scale f g x = Inr f' \<longrightarrow>
      (\<exists>n' up'. f' = located f n' up' \<and> shape n' = shape n \<and>
         map shape_frame up' = map shape_frame up \<and> list_all (written x) (writes n' up'))) \<and>
    (\<forall>e f'. scale f g x = Inl (e, f') \<longrightarrow>
      (\<exists>n' up'. f' = located f n' up' \<and> shape n' = shape n \<and>
         map shape_frame up' = map shape_frame up \<and>
         stopped x e (writes n' up') (map count (writes n up))))"
proof -
  let ?r = "recipe n"
  let ?T = "map count (writes n up)"
  have T: "?T = node_quantity n # map node_quantity (concat (map preorder (children n)))
      @ frame_counts up"
    by (simp add: writes_def count_child_writes count_parent_writes)
  have head: "\<exists>n' up'. f = located f n' up' \<and> shape n' = shape n \<and>
         map shape_frame up' = map shape_frame up \<and> stopped x e (writes n' up') ?T"
    if "computed x (Write_anchor ?r (node_quantity n)) = Inl e" for e
  proof -
    have "stopped x e (writes n up) ?T"
      using stopped_head [OF that, of "children_writes ?r (node_quantity n) (children n)
          @ parent_writes n up" ?T]
      by (simp add: writes_def)
    with located_id [OF assms] show ?thesis by (metis (no_types))
  qed
  show ?thesis
  proof (cases "product ?r")
    case (Inl e0)
    with head [of e0] assms show ?thesis by (simp add: scale_def)
  next
    case p: (Inr p)
    show ?thesis
    proof (cases "quantity p = 0")
      case True
      with p head [of ZeroDivisionError] assms show ?thesis by (simp add: scale_def)
    next
      case nz: False
      let ?q = "fdiv x (quantity p)"
      have w: "written x (Write_anchor ?r ?q)"
        using p nz by (simp add: written_def)
      show ?thesis
      proof (cases "scale_children_by_product ?r ?q (children n)")
        case (Inl a)
        obtain e cs' where a: "a = (e, cs')" by (cases a)
        let ?n = "Node ?r ?q cs'"
        from scale_by_product_writes(4) [of ?r ?q "children n" e cs' x] Inl a
        have s: "map shape cs' = map shape (children n)"
          and st: "stopped x e (children_writes ?r ?q cs')
              (map node_quantity (concat (map preorder (children n))))"
          by simp_all
        have res: "scale f g x = Inl (e, located f ?n up)"
          using assms p nz Inl a by (simp add: scale_def Let_def)
        have sn: "shape ?n = shape n" using s by (cases n) simp
        have "map count (parent_writes ?n up) = frame_counts up"
          by (rule count_parent_writes)
        from stopped_Cons [OF w stopped_left [OF st this], of "node_quantity n"]
        have "stopped x e (writes ?n up) ?T"
          by (simp add: writes_def count_child_writes count_parent_writes)
        with sn have "\<exists>n' up'. located f ?n up = located f n' up' \<and> shape n' = shape n \<and>
            map shape_frame up' = map shape_frame up \<and> stopped x e (writes n' up') ?T"
          by blast
        with res show ?thesis by simp
      next
        case cs: (Inr cs')
        let ?n = "Node ?r ?q cs'"
        from scale_by_product_writes(3) [of ?r ?q "children n" cs' x] cs
        have s: "map shape cs' = map shape (children n)"
          and al: "list_all (written x) (children_writes ?r ?q cs')"
          by simp_all
        have sn: "shape ?n = shape n" using s by (cases n) simp
        have len: "length (children_writes ?r ?q cs')
            = length (map node_quantity (concat (map preorder (children n))))"
          using length_preorders_eq [OF s] by (simp add: length_child_writes)
        show ?thesis
        proof (cases "scale_node_by_ingredient up ?n")
          case (Inl a)
          obtain e up' where a: "a = (e, up')" by (cases a)
          from scale_by_ingredient_writes(2) [of up ?n e up' x] Inl a
          have su: "map shape_frame up' = map shape_frame up"
            and st: "stopped x e (parent_writes ?n up') (frame_counts up)"
            by simp_all
          have res: "scale f g x = Inl (e, located f ?n up')"
            using assms p nz cs Inl a by (simp add: scale_def Let_def)
          from stopped_Cons [OF w stopped_right [OF al len st], of "node_quantity n"]
          have "stopped x e (writes ?n up') ?T"
            by (simp add: writes_def count_child_writes count_parent_writes)
          with sn su have "\<exists>n' up''. located f ?n up' = located f n' up'' \<and> shape n' = shape n \<and>
              map shape_frame up'' = map shape_frame up \<and> stopped x e (writes n' up'') ?T"
            by blast
          with res show ?thesis by simp
        next
          case u: (Inr up')
          from scale_by_ingredient_writes(1) [of up ?n up' x] u
          have su: "map shape_frame up' = map shape_frame up"
            and al': "list_all (written x) (parent_writes ?n up')"
            by simp_all
          have res: "scale f g x = Inr (located f ?n up')"
            using assms p nz cs u by (simp add: scale_def Let_def)
          have "list_all (written x) (writes ?n up')"
            using w al al' by (simp add: writes_def)
          with sn su have "\<exists>n' up''. located f ?n up' = located f n' up'' \<and> shape n' = shape n \<and>
              map shape_frame up'' = map shape_frame up \<and> list_all (written x) (writes n' up'')"
            by blast
          with res show ?thesis by simp
        qed
      qed
    qed
  qed
qed

lemma scale_found:
  assumes "scale f g x = Inr f'"
  shows "\<exists>n up. find_node f g = Inr (Some (n, up))"
  using assms by (auto simp: scale_def split: sum.splits option.splits)






text \<open>A written tree is a fixed point of the two passes.\<close>

lemma scale_by_product_fixed:
  "list_all (written x) (child_writes pr pq c) \<Longrightarrow> scale_node_by_product pr pq c = Inr c"
  "list_all (written x) (children_writes pr pq cs) \<Longrightarrow> scale_children_by_product pr pq cs = Inr cs"
proof (induction pr pq c and pr pq cs rule: child_writes_children_writes.induct)
  case (1 pr pq r q cs)
  from "1.prems" have w: "written x (Write_child pr pq r q)"
    and cs: "list_all (written x) (children_writes r q cs)"
    by simp_all
  from w obtain p i where p: "product r = Inr p"
    and i: "find (\<lambda>ingredient. name ingredient = name p) (inputs pr) = Some i"
    and nz: "quantity p \<noteq> 0" and q: "fdiv (fmul (quantity i) pq) (quantity p) = q"
    by (auto simp: written_def split: sum.splits option.splits if_splits)
  from "1.IH" [OF cs] p i nz q show ?case by (simp add: Let_def)
next
  case (2 pr pq)
  show ?case by simp
next
  case (3 pr pq c cs)
  then show ?case by simp
qed

lemma scale_by_ingredient_fixed:
  "list_all (written x) (parent_writes m up) \<Longrightarrow> scale_node_by_ingredient up m = Inr up"
proof (induction m up rule: parent_writes.induct)
  case (1 m)
  show ?case by simp
next
  case (2 m r q ls rs up)
  from "2.prems" have w: "written x (Write_parent r q (recipe m) (node_quantity m))"
    and ls: "list_all (written x) (children_writes r q ls)"
    and rs: "list_all (written x) (children_writes r q rs)"
    and up: "list_all (written x) (parent_writes (Node r q (ls @ m # rs)) up)"
    by simp_all
  from w obtain p i where p: "product (recipe m) = Inr p"
    and i: "find (\<lambda>ingredient. name ingredient = name p) (inputs r) = Some i"
    and nz: "quantity i \<noteq> 0" and q: "fdiv (fmul (quantity p) (node_quantity m)) (quantity i) = q"
    by (auto simp: written_def split: sum.splits option.splits if_splits)
  from "2.IH" [OF up] scale_by_product_fixed(2) [OF ls] scale_by_product_fixed(2) [OF rs]
    p i nz q
  show ?case by (simp add: Let_def)
qed

lemma scale_again:
  assumes "scale f g x = Inr f'"
  shows "scale f' g x = Inr f'"
proof -
  from scale_found [OF assms] obtain n up where a: "find_node f g = Inr (Some (n, up))"
    by blast
  from scale_result [OF a, of x] assms obtain n' up' where
    f': "f' = located f n' up'" and s: "shape n' = shape n"
    "map shape_frame up' = map shape_frame up" and al: "list_all (written x) (writes n' up')"
    by blast
  from find_located(1) [OF a s] f' have a': "find_node f' g = Inr (Some (n', up'))" by simp
  from al have w: "written x (Write_anchor (recipe n') (node_quantity n'))"
    and cs: "list_all (written x) (children_writes (recipe n') (node_quantity n') (children n'))"
    and u: "list_all (written x) (parent_writes n' up')"
    by (simp_all add: writes_def)
  from w obtain p where p: "product (recipe n') = Inr p" and nz: "quantity p \<noteq> 0"
    and q: "fdiv x (quantity p) = node_quantity n'"
    by (auto simp: written_def split: sum.splits if_splits)
  from a' p nz q scale_by_product_fixed(2) [OF cs] scale_by_ingredient_fixed [OF u]
    located_id [OF a']
  show ?thesis by (simp add: scale_def Let_def node_collapse)
qed

lemma anchor_written:
  assumes "find_node f g = Inr (Some (n, up))" "product (recipe n) = Inr p" "quantity p \<noteq> 0"
  shows "\<exists>n' up'. state_of (scale f g x) = located f n' up' \<and> shape n' = shape n \<and>
     map shape_frame up' = map shape_frame up \<and> node_quantity n' = fdiv x (quantity p)"
proof -
  have anchor: "node_quantity n' = fdiv x (quantity p)"
    if "written x (writes n' up' ! 0)" "shape n' = shape n" for n' up'
  proof -
    from that(1) have "computed x (Write_anchor (recipe n') (node_quantity n')) = Inr (node_quantity n')"
      by (simp add: writes_def written_def)
    with shape_recipe [OF that(2)] assms(2,3) show ?thesis by simp
  qed
  show ?thesis
  proof (cases "scale f g x")
    case (Inl a)
    obtain e f' where a: "a = (e, f')" by (cases a)
    from scale_result [OF assms(1), of x] Inl a obtain n' up' where
      r: "f' = located f n' up'" "shape n' = shape n" "map shape_frame up' = map shape_frame up"
        "stopped x e (writes n' up') (map count (writes n up))"
      by blast
    from r(4) obtain k where k: "\<forall>i < k. written x (writes n' up' ! i)"
      "computed x (writes n' up' ! k) = Inl e"
      unfolding stopped_def by blast
    have "k \<noteq> 0"
    proof
      assume "k = 0"
      with k(2) have "computed x (Write_anchor (recipe n') (node_quantity n')) = Inl e"
        by (simp add: writes_def)
      with shape_recipe [OF r(2)] assms(2,3) show False by simp
    qed
    with k(1) have "written x (writes n' up' ! 0)" by simp
    from anchor [OF this r(2)] r(1,2,3) Inl a show ?thesis by auto
  next
    case (Inr f')
    from scale_result [OF assms(1), of x] Inr obtain n' up' where
      r: "f' = located f n' up'" "shape n' = shape n" "map shape_frame up' = map shape_frame up"
        "list_all (written x) (writes n' up')"
      by blast
    from r(4) have "written x (writes n' up' ! 0)" by (simp add: writes_def)
    from anchor [OF this r(2)] r(1,2,3) Inr show ?thesis by auto
  qed
qed

lemma located_nth:
  assumes "find_node f g = Inr (Some (n, inner @ above f))" "shape n' = shape n"
    "map shape_frame up' = map shape_frame (inner @ above f)"
  shows "preorder (map' (located f n' up')) ! length (recipes_before inner) = n'"
proof -
  let ?k = "length up' - length (above f)"
  have len: "length up' = length (inner @ above f)" using assms(3) by (metis length_map)
  then have k: "?k = length inner" by simp
  have "map shape_frame (take ?k up') = take ?k (map shape_frame up')" by (simp add: take_map)
  then have si: "map shape_frame (take ?k up') = map shape_frame inner"
    using assms(3) k by simp
  have "map' (located f n' up') = root_of n' (take ?k up')" by (simp add: located_def)
  with nth_preorder_root_of [of n' "take ?k up'"] recipes_before_shape [OF si]
  show ?thesis by simp
qed

section \<open>Example trees\<close>

text \<open>
  The tree of the end-to-end example of the specification; a tree whose second child
  produces nothing its parent consumes; a tree with two producers of the same good; the
  factory \<^verbatim>\<open>new_factory_from_product\<close> makes of the smelter of the first tree, which keeps
  its parent; and a tree with a recipe without outputs.
\<close>

definition widget_factory :: factory where
  "widget_factory = \<lparr>registry = \<lparr>recipes = [smelt_ore, make_widget]\<rparr>,
     map' = Node make_widget 1 [Node smelt_ore 1 []], above = []\<rparr>"

definition mismatched_factory :: factory where
  "mismatched_factory = \<lparr>registry = \<lparr>recipes = [smelt_ore, make_widget]\<rparr>,
     map' = Node make_widget 1 [Node smelt_ore 1 [], Node make_widget 1 []], above = []\<rparr>"

definition two_smelters :: factory where
  "two_smelters = \<lparr>registry = \<lparr>recipes = [smelt_ore, make_widget]\<rparr>,
     map' = Node make_widget 1 [Node smelt_ore 1 [], Node smelt_ore 1 []], above = []\<rparr>"

definition smelter_factory :: factory where
  "smelter_factory = \<lparr>registry = \<lparr>recipes = [smelt_ore, make_widget]\<rparr>,
     map' = Node smelt_ore 1 [], above = [Frame make_widget 1 [] []]\<rparr>"

definition blank :: recipe where
  "blank = \<lparr>recipe_name = ''Blank'', machine = ''Smelter'', time = 1, energy = 1,
     inputs = [], outputs = []\<rparr>"

definition blank_factory :: factory where
  "blank_factory = \<lparr>registry = \<lparr>recipes = [blank, make_widget]\<rparr>,
     map' = Node make_widget 1 [Node blank 1 []], above = []\<rparr>"

lemma new_factory_widget:
  "new_factory_from_product widget_factory ''Bar'' = Inr (Some smelter_factory)"
  by (simp add: new_factory_from_product_def find_node_def product_def widget_factory_def
      smelter_factory_def make_widget_def smelt_ore_def)




definition grind_dust :: recipe where
  "grind_dust = \<lparr>recipe_name = ''Grind Dust'', machine = ''Grinder'', time = 1, energy = 1,
     inputs = [],
     outputs = [\<lparr>name = ''Dust'', quantity = 3602879701896397 / 18014398509481984,
                 raw_quantity = 1\<rparr>]\<rparr>"

definition dust_factory :: factory where
  "dust_factory = \<lparr>registry = \<lparr>recipes = [grind_dust]\<rparr>, map' = Node grind_dust 3 [], above = []\<rparr>"


text \<open>
  \<open>derived n\<close>: every node below \<open>n\<close> has the quantity computed from its parent's, the
  state a \<^verbatim>\<open>scale\<close> anchored at \<open>n\<close> leaves below \<open>n\<close> (the target rate plays no role there).
\<close>

definition derived :: "node \<Rightarrow> bool" where
  "derived n = list_all (written 0) (children_writes (recipe n) (node_quantity n) (children n))"

lemmas float_eval = fmul_def fdiv_def round_double_def round_half_even_def exponent_def pow2_def
  bit_length.simps Let_def

lemmas scale_eval = scale_def find_node_def located_def product_def float_eval

lemma scale_widget_widget:
  "scale widget_factory ''Widget'' 25
     = Inr (widget_factory\<lparr>map' :=
         Node make_widget (5 / 2) [Node smelt_ore (7505999378950827 / 4503599627370496) []]\<rparr>)"
  by (simp add: scale_eval widget_factory_def make_widget_def smelt_ore_def)


lemma scale_mismatched:
  "scale mismatched_factory ''Widget'' 25
     = Inl (ValueError, mismatched_factory\<lparr>map' :=
         Node make_widget (5 / 2)
           [Node smelt_ore (7505999378950827 / 4503599627370496) [], Node make_widget 1 []]\<rparr>)"
  by (simp add: scale_eval mismatched_factory_def make_widget_def smelt_ore_def)


lemma scale_dust:
  "scale dust_factory ''Dust'' (fmul 3 (3602879701896397 / 18014398509481984))
     = Inr (dust_factory\<lparr>map' := Node grind_dust (6755399441055745 / 2251799813685248) []\<rparr>)"
  by (simp add: scale_eval dust_factory_def grind_dust_def)

lemma scale_widget_ore: "scale widget_factory ''Ore'' 5 = Inl (AttributeError, widget_factory)"
  by (simp add: scale_def find_node_def product_def widget_factory_def make_widget_def smelt_ore_def)

lemma scale_blank_ore: "scale blank_factory ''Ore'' 5 = Inl (IndexError, blank_factory)"
  by (simp add: scale_def find_node_def product_def blank_factory_def make_widget_def blank_def)

lemma recipes_two_smelters: "recipes_of (map' two_smelters) = [make_widget, smelt_ore, smelt_ore]"
  by (simp add: two_smelters_def)

lemma recipes_blank: "recipes_of (map' blank_factory) = [make_widget, blank]"
  by (simp add: blank_factory_def)

lemma find_two_smelters:
  "find_node two_smelters ''Bar''
     = Inr (Some (Node smelt_ore 1 [], [Frame make_widget 1 [] [Node smelt_ore 1 []]]))"
  by (simp add: find_node_def product_def two_smelters_def make_widget_def smelt_ore_def)

lemma scale_two_smelters:
  "scale two_smelters ''Bar'' 60
     = Inr (two_smelters\<lparr>map' := Node make_widget 3 [Node smelt_ore 2 [], Node smelt_ore 2 []]\<rparr>)"
  by (simp add: scale_eval two_smelters_def make_widget_def smelt_ore_def)

section \<open>The claims about scale\<close>




text \<open>
  C2 as stated fails in its first half. A root alone with the rate \<^verbatim>\<open>0.2\<close> and the count
  3: its current rate is \<open>fmul 3 0.2\<close>, and \<^verbatim>\<open>scale\<close> to that rate writes the count
  \<open>3 + 2\<^sup>-\<^sup>5\<^sup>1\<close> (\<^verbatim>\<open>3.0000000000000004\<close>).
\<close>

theorem scale_round_trip_counterexample:
  "scale dust_factory ''Dust'' (fmul 3 (3602879701896397 / 18014398509481984))
     = Inr (dust_factory\<lparr>map' := Node grind_dust (6755399441055745 / 2251799813685248) []\<rparr>) \<and>
   map' dust_factory = Node grind_dust 3 [] \<and>
   product grind_dust = Inr \<lparr>name = ''Dust'', quantity = 3602879701896397 / 18014398509481984,
     raw_quantity = 1\<rparr> \<and>
   consistent (map' dust_factory) \<and>
   scale dust_factory ''Dust'' (fmul 3 (3602879701896397 / 18014398509481984)) \<noteq> Inr dust_factory"
  by (simp add: scale_dust) (simp add: dust_factory_def grind_dust_def product_def)

text \<open>
  C2 (as amended). A second \<^verbatim>\<open>scale\<close> with the anchor and rate of a successful first one
  returns the state the first one returned. And for a root without parent whose product
  rate is not zero, \<^verbatim>\<open>scale\<close> of the root's product to the root's current rate
  \<open>fmul count rate\<close> returns the factory unchanged exactly when dividing that rate by the
  product rate gives the count back and every node below the root has the quantity
  computed from its parent's.
\<close>

theorem scale_idempotent:
  "(scale f g x = Inr f' \<longrightarrow> scale f' g x = Inr f') \<and>
   (above f = [] \<and> product (recipe (map' f)) = Inr p \<and> quantity p \<noteq> 0 \<longrightarrow>
      (scale f (name p) (fmul (node_quantity (map' f)) (quantity p)) = Inr f \<longleftrightarrow>
         fdiv (fmul (node_quantity (map' f)) (quantity p)) (quantity p) = node_quantity (map' f) \<and>
         derived (map' f)))"
proof (intro conjI impI)
  assume "scale f g x = Inr f'"
  then show "scale f' g x = Inr f'" by (rule scale_again)
next
  assume a: "above f = [] \<and> product (recipe (map' f)) = Inr p \<and> quantity p \<noteq> 0"
  obtain r q cs where m: "map' f = Node r q cs" by (cases "map' f")
  let ?q = "fdiv (fmul q (quantity p)) (quantity p)"
  have find: "find_node f (name p) = Inr (Some (Node r q cs, []))"
    using m a by (simp add: find_node_def)
  have loc: "located f n [] = f\<lparr>map' := n\<rparr>" for n
    using a by (simp add: located_def)
  have sc: "scale f (name p) (fmul q (quantity p)) =
      (case scale_children_by_product r ?q cs of
         Inl (e, cs') \<Rightarrow> Inl (e, f\<lparr>map' := Node r ?q cs'\<rparr>)
       | Inr cs' \<Rightarrow> Inr (f\<lparr>map' := Node r ?q cs'\<rparr>))"
    using find a m loc by (simp add: scale_def Let_def split: sum.splits)
  have "scale f (name p) (fmul q (quantity p)) = Inr f \<longleftrightarrow>
      ?q = q \<and> list_all (written 0) (children_writes r q cs)"
  proof
    assume s: "scale f (name p) (fmul q (quantity p)) = Inr f"
    with sc obtain cs' where cs': "scale_children_by_product r ?q cs = Inr cs'"
      and f: "f\<lparr>map' := Node r ?q cs'\<rparr> = f"
      by (auto split: sum.splits)
    from f have "map' (f\<lparr>map' := Node r ?q cs'\<rparr>) = map' f" by simp
    with m have eq: "?q = q" "cs' = cs" by simp_all
    from scale_by_product_writes(3) [of r ?q cs cs' 0] cs' eq
    show "?q = q \<and> list_all (written 0) (children_writes r q cs)" by simp
  next
    assume w: "?q = q \<and> list_all (written 0) (children_writes r q cs)"
    then have "scale_children_by_product r q cs = Inr cs"
      using scale_by_product_fixed(2) by blast
    with sc w m show "scale f (name p) (fmul q (quantity p)) = Inr f" by simp
  qed
  with m show "scale f (name p) (fmul (node_quantity (map' f)) (quantity p)) = Inr f \<longleftrightarrow>
      fdiv (fmul (node_quantity (map' f)) (quantity p)) (quantity p) = node_quantity (map' f) \<and>
      derived (map' f)"
    by (simp add: derived_def)
qed

theorem scale_idempotent_witness:
  "scale (widget_factory\<lparr>map' :=
       Node make_widget (5 / 2) [Node smelt_ore (7505999378950827 / 4503599627370496) []]\<rparr>)
     ''Widget'' 25
     = Inr (widget_factory\<lparr>map' :=
         Node make_widget (5 / 2) [Node smelt_ore (7505999378950827 / 4503599627370496) []]\<rparr>) \<and>
   fmul (5 / 2) 10 = 25 \<and> fdiv 25 10 = 5 / 2 \<and>
   derived (Node make_widget (5 / 2) [Node smelt_ore (7505999378950827 / 4503599627370496) []])"
  using scale_idempotent [where f = widget_factory and g = "''Widget''" and x = 25
      and f' = "widget_factory\<lparr>map' :=
         Node make_widget (5 / 2) [Node smelt_ore (7505999378950827 / 4503599627370496) []]\<rparr>",
      THEN conjunct1]
    scale_idempotent [where f = "widget_factory\<lparr>map' :=
         Node make_widget (5 / 2) [Node smelt_ore (7505999378950827 / 4503599627370496) []]\<rparr>"
      and p = "\<lparr>name = ''Widget'', quantity = 10, raw_quantity = 1\<rparr>", THEN conjunct2]
    scale_widget_widget
  by (simp add: widget_factory_def make_widget_def smelt_ore_def product_def derived_def
      written_def float_eval)

text \<open>
  C4 as stated fails: the code has no error of its own for a good that no node
  produces. \<^verbatim>\<open>find_node\<close> returns \<^verbatim>\<open>None\<close> and \<^verbatim>\<open>scale\<close> raises the AttributeError of
  \<^verbatim>\<open>None.recipe\<close>; when the search meets a recipe without outputs on its way, it is the
  IndexError of \<^verbatim>\<open>outputs[0]\<close>.
\<close>

theorem scale_not_found_counterexample:
  "find_node widget_factory ''Ore'' = Inr None \<and>
   scale widget_factory ''Ore'' 5 = Inl (AttributeError, widget_factory) \<and>
   scale blank_factory ''Ore'' 5 = Inl (IndexError, blank_factory)"
  by (simp add: scale_def find_node_def product_def widget_factory_def blank_factory_def
      make_widget_def smelt_ore_def blank_def)

text \<open>
  C4 (as amended). \<open>recipes_of (map' f)\<close> lists the recipes of the factory's tree in
  pre-order. When each of them has a primary product and none of these is named \<open>g\<close>,
  \<^verbatim>\<open>find_node\<close> returns \<^verbatim>\<open>None\<close> and \<^verbatim>\<open>scale\<close> raises AttributeError with the factory as it
  was. When the first recipe that has no primary product of another name has no output
  at all, \<^verbatim>\<open>scale\<close> raises IndexError with the factory as it was. When that first recipe
  produces \<open>g\<close>, \<^verbatim>\<open>find_node\<close> returns the node at its place in the pre-order, and, the
  product rate not being zero, \<^verbatim>\<open>scale\<close> leaves a tree of the same shape in which the node
  at that place has the quantity \<open>fdiv x rate\<close>, whether it returns or raises later.
\<close>

theorem scale_anchor:
  "((\<forall>r \<in> set (recipes_of (map' f)). passes g r) \<longrightarrow>
      find_node f g = Inr None \<and> scale f g x = Inl (AttributeError, f)) \<and>
   (recipes_of (map' f) = before @ r # after \<and> (\<forall>r0 \<in> set before. passes g r0) \<and>
    outputs r = [] \<longrightarrow>
      scale f g x = Inl (IndexError, f)) \<and>
   (recipes_of (map' f) = before @ r # after \<and> (\<forall>r0 \<in> set before. passes g r0) \<and>
    produces g r \<longrightarrow>
      (\<exists>n up. find_node f g = Inr (Some (n, up)) \<and> n = preorder (map' f) ! length before \<and>
         recipe n = r \<and>
         (\<forall>p. product r = Inr p \<and> quantity p \<noteq> 0 \<longrightarrow>
            shape (map' (state_of (scale f g x))) = shape (map' f) \<and>
            node_quantity (preorder (map' (state_of (scale f g x))) ! length before)
              = fdiv x (quantity p))))"
proof (intro conjI impI)
  assume "\<forall>r \<in> set (recipes_of (map' f)). passes g r"
  then have "find_node f g = Inr None"
    by (simp add: find_node_def find_none_iff)
  then show "find_node f g = Inr None" "scale f g x = Inl (AttributeError, f)"
    by (simp_all add: scale_def)
next
  assume "recipes_of (map' f) = before @ r # after \<and> (\<forall>r0 \<in> set before. passes g r0) \<and>
    outputs r = []"
  then have "find_node f g = Inl IndexError"
    using find_index_error [of "map' f" before r after g "above f"]
    by (simp add: find_node_def)
  then show "scale f g x = Inl (IndexError, f)" by (simp add: scale_def)
next
  assume a: "recipes_of (map' f) = before @ r # after \<and> (\<forall>r0 \<in> set before. passes g r0) \<and>
    produces g r"
  from find_first [of "map' f" before r after g "above f"] a obtain m inner where
    m: "find_node f g = Inr (Some (m, inner @ above f))" "recipe m = r"
      "recipes_before inner = before" "m = preorder (map' f) ! length before"
    by (auto simp: find_node_def)
  have "shape (map' (state_of (scale f g x))) = shape (map' f) \<and>
      node_quantity (preorder (map' (state_of (scale f g x))) ! length before) = fdiv x (quantity p)"
    if p: "product r = Inr p \<and> quantity p \<noteq> 0" for p
  proof -
    from anchor_written [OF m(1), of p x] p m(2) obtain n' up' where
      s: "state_of (scale f g x) = located f n' up'" "shape n' = shape m"
        "map shape_frame up' = map shape_frame (inner @ above f)"
        "node_quantity n' = fdiv x (quantity p)"
      by auto
    from located_nth [OF m(1) s(2,3)] find_located(3) [OF m(1) s(2,3)] s(1,4) m(3)
    show ?thesis by simp
  qed
  with m show "\<exists>n up. find_node f g = Inr (Some (n, up)) \<and> n = preorder (map' f) ! length before \<and>
         recipe n = r \<and>
         (\<forall>p. product r = Inr p \<and> quantity p \<noteq> 0 \<longrightarrow>
            shape (map' (state_of (scale f g x))) = shape (map' f) \<and>
            node_quantity (preorder (map' (state_of (scale f g x))) ! length before)
              = fdiv x (quantity p))"
    by blast
qed

theorem scale_anchor_witness:
  "scale widget_factory ''Ore'' 5 = Inl (AttributeError, widget_factory) \<and>
   scale blank_factory ''Ore'' 5 = Inl (IndexError, blank_factory) \<and>
   recipes_of (map' two_smelters) = [make_widget] @ smelt_ore # [smelt_ore] \<and>
   find_node two_smelters ''Bar''
     = Inr (Some (Node smelt_ore 1 [], [Frame make_widget 1 [] [Node smelt_ore 1 []]])) \<and>
   scale two_smelters ''Bar'' 60
     = Inr (two_smelters\<lparr>map' := Node make_widget 3 [Node smelt_ore 2 [], Node smelt_ore 2 []]\<rparr>)"
  using scale_widget_ore scale_blank_ore recipes_two_smelters recipes_blank find_two_smelters
    scale_two_smelters
    scale_anchor [where f = widget_factory and g = "''Ore''" and x = 5, THEN conjunct1]
    scale_anchor [where f = blank_factory and g = "''Ore''" and x = 5 and before = "[make_widget]"
      and r = blank and after = "[]", THEN conjunct2, THEN conjunct1]
    scale_anchor [where f = two_smelters and g = "''Bar''" and x = 60 and before = "[make_widget]"
      and r = smelt_ore and after = "[smelt_ore]", THEN conjunct2, THEN conjunct2]
  by simp

text \<open>
  C5 as stated fails: the second child of the root produces nothing the root consumes,
  the call raises ValueError, and by then the quantities of the root and of its first
  child have been written.
\<close>

theorem scale_not_atomic_counterexample:
  "scale mismatched_factory ''Widget'' 25
     = Inl (ValueError, mismatched_factory\<lparr>map' :=
         Node make_widget (5 / 2)
           [Node smelt_ore (7505999378950827 / 4503599627370496) [], Node make_widget 1 []]\<rparr>) \<and>
   map' mismatched_factory = Node make_widget 1 [Node smelt_ore 1 [], Node make_widget 1 []]"
  by (simp add: scale_mismatched) (simp add: mismatched_factory_def)

text \<open>
  C5 (as amended). A \<^verbatim>\<open>scale\<close> that raises changes quantities only. It changes nothing
  when the search has returned no anchor. When it has, the run has stopped at one of
  the writes of the call, taken in the order in which the code makes them: the writes
  before it are written and stay, the one it stopped at is the one that raises the
  exception, and the quantities from there on are the ones from before the call.
\<close>

theorem scale_failure_state:
  "scale f g x = Inl (e, f') \<longrightarrow>
     registry f' = registry f \<and> shape (map' f') = shape (map' f) \<and>
     map shape_frame (above f') = map shape_frame (above f) \<and>
     ((\<forall>n up. find_node f g \<noteq> Inr (Some (n, up))) \<longrightarrow> f' = f) \<and>
     (\<forall>n up. find_node f g = Inr (Some (n, up)) \<longrightarrow>
        (\<exists>n' up' k. find_node f' g = Inr (Some (n', up')) \<and>
           length (writes n' up') = length (writes n up) \<and> k < length (writes n' up') \<and>
           (\<forall>i < k. written x (writes n' up' ! i)) \<and>
           computed x (writes n' up' ! k) = Inl e \<and>
           (\<forall>i. k \<le> i \<and> i < length (writes n' up') \<longrightarrow>
              count (writes n' up' ! i) = count (writes n up ! i))))"
proof
  assume s: "scale f g x = Inl (e, f')"
  show "registry f' = registry f \<and> shape (map' f') = shape (map' f) \<and>
     map shape_frame (above f') = map shape_frame (above f) \<and>
     ((\<forall>n up. find_node f g \<noteq> Inr (Some (n, up))) \<longrightarrow> f' = f) \<and>
     (\<forall>n up. find_node f g = Inr (Some (n, up)) \<longrightarrow>
        (\<exists>n' up' k. find_node f' g = Inr (Some (n', up')) \<and>
           length (writes n' up') = length (writes n up) \<and> k < length (writes n' up') \<and>
           (\<forall>i < k. written x (writes n' up' ! i)) \<and>
           computed x (writes n' up' ! k) = Inl e \<and>
           (\<forall>i. k \<le> i \<and> i < length (writes n' up') \<longrightarrow>
              count (writes n' up' ! i) = count (writes n up ! i))))"
  proof (cases "\<exists>n up. find_node f g = Inr (Some (n, up))")
    case False
    have "find_node f g = Inr None \<or> (\<exists>e0. find_node f g = Inl e0)"
    proof (cases "find_node f g")
      case (Inl e0)
      then show ?thesis by simp
    next
      case (Inr b)
      have "b = None"
      proof (cases b)
        case None
        then show ?thesis .
      next
        case (Some loc)
        obtain n up where "loc = (n, up)" by (cases loc)
        with Some Inr False show ?thesis by simp
      qed
      with Inr show ?thesis by simp
    qed
    with s have "f' = f" by (auto simp: scale_def)
    with False show ?thesis by simp
  next
    case True
    then obtain n up where a: "find_node f g = Inr (Some (n, up))" by blast
    from scale_result [OF a, of x] s obtain n' up' where
      f': "f' = located f n' up'" and sh: "shape n' = shape n"
      "map shape_frame up' = map shape_frame up"
      and st: "stopped x e (writes n' up') (map count (writes n up))"
      by blast
    note l = find_located [OF a sh]
    from st obtain k where len: "length (writes n' up') = length (writes n up)"
      and k: "k < length (writes n' up')" "\<forall>i < k. written x (writes n' up' ! i)"
        "computed x (writes n' up' ! k) = Inl e"
      and o: "\<forall>i. k \<le> i \<and> i < length (writes n' up') \<longrightarrow>
          count (writes n' up' ! i) = map count (writes n up) ! i"
      unfolding stopped_def by auto
    have o': "\<forall>i. k \<le> i \<and> i < length (writes n' up') \<longrightarrow>
          count (writes n' up' ! i) = count (writes n up ! i)"
      using o len by simp
    from l(1) f' len k o' have "\<exists>n' up' k. find_node f' g = Inr (Some (n', up')) \<and>
           length (writes n' up') = length (writes n up) \<and> k < length (writes n' up') \<and>
           (\<forall>i < k. written x (writes n' up' ! i)) \<and>
           computed x (writes n' up' ! k) = Inl e \<and>
           (\<forall>i. k \<le> i \<and> i < length (writes n' up') \<longrightarrow>
              count (writes n' up' ! i) = count (writes n up ! i))"
      by blast
    with a l(2,3,4) f' show ?thesis by simp
  qed
qed

theorem scale_failure_state_witness:
  "scale mismatched_factory ''Widget'' 25
     = Inl (ValueError, mismatched_factory\<lparr>map' :=
         Node make_widget (5 / 2)
           [Node smelt_ore (7505999378950827 / 4503599627370496) [], Node make_widget 1 []]\<rparr>) \<and>
   writes (Node make_widget (5 / 2)
       [Node smelt_ore (7505999378950827 / 4503599627370496) [], Node make_widget 1 []]) []
     = [Write_anchor make_widget (5 / 2),
        Write_child make_widget (5 / 2) smelt_ore (7505999378950827 / 4503599627370496),
        Write_child make_widget (5 / 2) make_widget 1] \<and>
   written 25 (Write_anchor make_widget (5 / 2)) \<and>
   written 25 (Write_child make_widget (5 / 2) smelt_ore (7505999378950827 / 4503599627370496)) \<and>
   computed 25 (Write_child make_widget (5 / 2) make_widget 1) = Inl ValueError"
  using scale_failure_state [where f = mismatched_factory and g = "''Widget''" and x = 25
      and e = ValueError and f' = "mismatched_factory\<lparr>map' :=
         Node make_widget (5 / 2)
           [Node smelt_ore (7505999378950827 / 4503599627370496) [], Node make_widget 1 []]\<rparr>"]
    scale_mismatched
  by (simp add: writes_def written_def product_def make_widget_def smelt_ore_def float_eval)

section \<open>The tree build leaves\<close>

text \<open>
  \<open>levels l n\<close> lists the nodes of a tree in pre-order, each with its level, the root
  having level \<open>l\<close>. \<open>selection\<close> is the list of recipes of the children \<^verbatim>\<open>_build_factory\<close>
  gives a node that it expands: for each input, in order, that has candidates, the
  recipe the policy selects.
\<close>

fun levels :: "nat \<Rightarrow> node \<Rightarrow> (nat \<times> node) list" where
  "levels l (Node r q cs) = (l, Node r q cs) # concat (map (levels (Suc l)) cs)"

fun selection ::
  "codex \<Rightarrow> (recipe list \<Rightarrow> error + recipe) \<Rightarrow> string set \<Rightarrow> ingredient list \<Rightarrow> recipe list" where
  "selection reg fitness_func excl [] = []"
| "selection reg fitness_func excl (i # is) =
     (case get_recipes_by_part reg (name i) Product (Some excl) of
        Inl e \<Rightarrow> []
      | Inr options \<Rightarrow>
          if options = [] then []
          else (case fitness_func options of Inl e \<Rightarrow> [] | Inr chosen \<Rightarrow> [chosen]))
     @ selection reg fitness_func excl is"

text \<open>
  \<open>replay c sel S L\<close> goes through the levelled pre-order list \<open>L\<close> of a tree with one set of
  product names, starting from \<open>S\<close>, and checks each node: a node at the level \<open>c\<close> where the
  depth is used up has no children; a node whose product name is in the set has no
  children; any other node has children with the recipes \<open>sel\<close> gives for its inputs, and
  its product name joins the set. The result is the set at the end, or \<open>None\<close> when a node
  fails its check.
\<close>

fun replay ::
  "int \<Rightarrow> (ingredient list \<Rightarrow> recipe list) \<Rightarrow> string set \<Rightarrow> (nat \<times> node) list \<Rightarrow> string set option" where
  "replay c sel S [] = Some S"
| "replay c sel S (x # rest) =
     (if int (fst x) = c then (if children (snd x) = [] then replay c sel S rest else None)
      else case product (recipe (snd x)) of
             Inl e \<Rightarrow> None
           | Inr p \<Rightarrow>
               if name p \<in> S then (if children (snd x) = [] then replay c sel S rest else None)
               else if map recipe (children (snd x)) = sel (inputs (recipe (snd x)))
                    then replay c sel (insert (name p) S) rest else None)"

text \<open>A catalog and a recipe to build from.\<close>

definition mine_ore :: recipe where
  "mine_ore = \<lparr>recipe_name = ''Mine Ore'', machine = ''Miner'', time = 1, energy = 5,
     inputs = [],
     outputs = [\<lparr>name = ''Ore'', quantity = 60, raw_quantity = 1\<rparr>]\<rparr>"

definition make_gadget :: recipe where
  "make_gadget = \<lparr>recipe_name = ''Make Gadget'', machine = ''Assembler'', time = 6, energy = 15,
     inputs = [\<lparr>name = ''Widget'', quantity = 10, raw_quantity = 1\<rparr>,
               \<lparr>name = ''Bar'', quantity = 10, raw_quantity = 1\<rparr>],
     outputs = [\<lparr>name = ''Gadget'', quantity = 10, raw_quantity = 1\<rparr>]\<rparr>"

definition gadget_factory :: factory where
  "gadget_factory = \<lparr>registry = \<lparr>recipes = [smelt_ore, make_widget, make_gadget, mine_ore]\<rparr>,
     map' = Node make_gadget 1 [], above = []\<rparr>"

lemmas build_eval = build_def get_recipes_by_part_def components_def product_def
  simplest_recipe_def gadget_factory_def make_gadget_def make_widget_def smelt_ore_def
  mine_ore_def

lemma build_gadget_2:
  "build gadget_factory None None None 2
     = Inr (gadget_factory\<lparr>map' :=
         Node make_gadget 1
           [Node make_widget 1 [Node smelt_ore 1 []],
            Node smelt_ore 1 [Node mine_ore 1 []]]\<rparr>, None)"
  by (simp add: build_eval)

lemma build_gadget_unlimited:
  "build gadget_factory None None None (- 1)
     = Inr (gadget_factory\<lparr>map' :=
         Node make_gadget 1
           [Node make_widget 1 [Node smelt_ore 1 [Node mine_ore 1 []]],
            Node smelt_ore 1 []]\<rparr>, None)"
  by (simp add: build_eval)

lemma build_gadget_seeded:
  "build gadget_factory None None (Some {''Bar''}) (- 1)
     = Inr (gadget_factory\<lparr>map' :=
         Node make_gadget 1 [Node make_widget 1 [Node smelt_ore 1 []], Node smelt_ore 1 []]\<rparr>,
        Some {''Widget'', ''Gadget'', ''Bar''})"
  by (simp add: build_eval)

lemma replay_append:
  "replay c sel S (A @ B) = (case replay c sel S A of None \<Rightarrow> None | Some S1 \<Rightarrow> replay c sel S1 B)"
  by (induction A arbitrary: S) (auto split: sum.splits)

lemma build_factory_root:
  assumes "build_factory reg fitness_func excl n products depth = Inr (n', products')"
  shows "recipe n' = recipe n \<and> node_quantity n' = node_quantity n"
  using assms by (cases n) (auto split: if_splits sum.splits)

lemma build_inputs_selection:
  "build_inputs reg fitness_func excl ins products depth = Inr (ns, products') \<Longrightarrow>
     map recipe ns = selection reg fitness_func excl ins"
proof (induction ins arbitrary: products ns)
  case Nil
  then show ?case by simp
next
  case (Cons i "is")
  from Cons.prems obtain options where
    o: "get_recipes_by_part reg (name i) Product (Some excl) = Inr options"
    by (cases "get_recipes_by_part reg (name i) Product (Some excl)") auto
  show ?case
  proof (cases "options = []")
    case True
    with Cons.prems o Cons.IH [of products ns] show ?thesis by simp
  next
    case False
    with Cons.prems o obtain chosen where c: "fitness_func options = Inr chosen"
      by (cases "fitness_func options") auto
    with Cons.prems o False obtain new_node products1 where
      b: "build_factory reg fitness_func excl (Node chosen 1 []) products (depth - 1) = Inr (new_node, products1)"
      by (cases "build_factory reg fitness_func excl (Node chosen 1 []) products (depth - 1)") auto
    with Cons.prems o False c obtain rest where
      r: "build_inputs reg fitness_func excl is products1 depth = Inr (rest, products')"
      and ns: "ns = new_node # rest"
      by (cases "build_inputs reg fitness_func excl is products1 depth") auto
    from build_factory_root [OF b] have "recipe new_node = chosen" by simp
    with Cons.IH [OF r] ns o False c show ?thesis by simp
  qed
qed

text \<open>The tree \<^verbatim>\<open>_build_factory\<close> returns passes the replay, which ends with the set it returns.\<close>

lemma build_replay:
  "build_factory reg fitness_func excl n products depth = Inr (n', products') \<Longrightarrow> children n = [] \<Longrightarrow>
     replay (int k + depth) (selection reg fitness_func excl) products (levels k n') = Some products'"
  "build_inputs reg fitness_func excl ins products depth = Inr (ns, products') \<Longrightarrow>
     replay (int k + depth) (selection reg fitness_func excl) products
       (concat (map (levels (Suc k)) ns)) = Some products'"
proof (induction reg fitness_func excl n products depth and reg fitness_func excl ins products depth
    arbitrary: n' products' k and ns products' k rule: build_factory_build_inputs.induct)
  case (1 reg fitness_func excl r q cs products depth)
  from "1.prems"(2) have cs: "cs = []" by simp
  show ?case
  proof (cases "depth = 0")
    case True
    with "1.prems"(1) cs show ?thesis by auto
  next
    case d: False
    with "1.prems"(1) obtain p where p: "product r = Inr p"
      by (cases "product r") auto
    show ?thesis
    proof (cases "name p \<in> products")
      case True
      with "1.prems"(1) d p cs show ?thesis by auto
    next
      case False
      with "1.prems"(1) d p cs obtain new where
        new: "build_inputs reg fitness_func excl (inputs r) (insert (name p) products) depth = Inr (new, products')"
        and n': "n' = Node r q new"
        by (auto split: sum.splits)
      from "1.IH" [OF d p False new, of k] build_inputs_selection [OF new] n' d p False
      show ?thesis by simp
    qed
  qed
next
  case (2 reg fitness_func excl products depth)
  then show ?case by simp
next
  case (3 reg fitness_func excl i "is" products depth)
  from "3.prems" obtain options where
    o: "get_recipes_by_part reg (name i) Product (Some excl) = Inr options"
    by (cases "get_recipes_by_part reg (name i) Product (Some excl)") auto
  show ?case
  proof (cases "options = []")
    case True
    with "3.prems" o "3.IH"(1) [OF o True, of ns products' k] show ?thesis by simp
  next
    case False
    with "3.prems" o obtain chosen where c: "fitness_func options = Inr chosen"
      by (cases "fitness_func options") auto
    with "3.prems" o False obtain new_node products1 where
      b: "build_factory reg fitness_func excl (Node chosen 1 []) products (depth - 1) = Inr (new_node, products1)"
      by (cases "build_factory reg fitness_func excl (Node chosen 1 []) products (depth - 1)") auto
    with "3.prems" o False c obtain rest where
      r: "build_inputs reg fitness_func excl is products1 depth = Inr (rest, products')"
      and ns: "ns = new_node # rest"
      by (cases "build_inputs reg fitness_func excl is products1 depth") auto
    from "3.IH"(2) [OF o False c b, of "Suc k"]
    have A: "replay (int k + depth) (selection reg fitness_func excl) products
        (levels (Suc k) new_node) = Some products1" by simp
    from "3.IH"(3) [OF o False c b refl r, of k]
    have B: "replay (int k + depth) (selection reg fitness_func excl) products1
        (concat (map (levels (Suc k)) rest)) = Some products'" .
    from A B ns show ?thesis by (simp add: replay_append)
  qed
qed

text \<open>What a list that passes the replay is like.\<close>

lemma replay_set:
  "replay c sel S L = Some S' \<Longrightarrow>
     S' = S \<union> {g. \<exists>x \<in> set L. int (fst x) \<noteq> c \<and> produces g (recipe (snd x))}"
proof (induction L arbitrary: S)
  case Nil
  then show ?case by simp
next
  case (Cons x L)
  show ?case
  proof (cases "int (fst x) = c")
    case True
    with Cons.prems have "replay c sel S L = Some S'" by (simp split: if_splits)
    from Cons.IH [OF this] True show ?thesis by auto
  next
    case lv: False
    with Cons.prems obtain p where p: "product (recipe (snd x)) = Inr p"
      by (cases "product (recipe (snd x))") auto
    then have pr: "\<And>g. produces g (recipe (snd x)) \<longleftrightarrow> g = name p"
      by (auto simp: produces_product)
    show ?thesis
    proof (cases "name p \<in> S")
      case True
      with Cons.prems lv p have "replay c sel S L = Some S'" by (simp split: if_splits)
      from Cons.IH [OF this] True lv pr show ?thesis by auto
    next
      case False
      with Cons.prems lv p have "replay c sel (insert (name p) S) L = Some S'"
        by (simp split: if_splits)
      from Cons.IH [OF this] lv pr show ?thesis by auto
    qed
  qed
qed

lemma replay_tail:
  "replay c sel S (x # L) = Some S' \<Longrightarrow> \<exists>S1. S \<subseteq> S1 \<and> replay c sel S1 L = Some S'"
  by (auto split: if_splits sum.splits)

lemma replay_leaf:
  "replay c sel S L = Some S' \<Longrightarrow> x \<in> set L \<Longrightarrow>
     int (fst x) = c \<or> (\<exists>g \<in> S. produces g (recipe (snd x))) \<Longrightarrow> children (snd x) = []"
proof (induction L arbitrary: S)
  case Nil
  then show ?case by simp
next
  case (Cons y L)
  show ?case
  proof (cases "x = y")
    case True
    with Cons.prems(1,3) show ?thesis
      by (auto simp: produces_product split: if_splits sum.splits)
  next
    case False
    with Cons.prems(2) have x: "x \<in> set L" by simp
    from replay_tail [OF Cons.prems(1)] obtain S1 where
      S1: "S \<subseteq> S1" "replay c sel S1 L = Some S'" by blast
    from Cons.prems(3) S1(1) have "int (fst x) = c \<or> (\<exists>g \<in> S1. produces g (recipe (snd x)))"
      by blast
    from Cons.IH [OF S1(2) x this] show ?thesis .
  qed
qed

lemma replay_later:
  assumes "replay c sel S (xs @ x # ys) = Some S'" "int (fst x) \<noteq> c"
    "produces g (recipe (snd x))" "y \<in> set ys" "produces g (recipe (snd y))"
  shows "children (snd y) = []"
proof -
  from assms(1) obtain S1 where S1: "replay c sel S1 (x # ys) = Some S'"
    by (auto simp: replay_append split: option.splits)
  from assms(3) obtain p where p: "product (recipe (snd x)) = Inr p" "name p = g"
    by (auto simp: produces_product)
  from S1 assms(2) p obtain S2 where S2: "replay c sel S2 ys = Some S'" "g \<in> S2"
    by (auto split: if_splits)
  from replay_leaf [OF S2(1) assms(4)] S2(2) assms(5) show ?thesis by blast
qed

lemma replay_first:
  assumes "replay c sel S (xs @ x # ys) = Some S'" "int (fst x) \<noteq> c"
    "produces g (recipe (snd x))" "g \<notin> S"
    "\<forall>y \<in> set xs. int (fst y) \<noteq> c \<longrightarrow> \<not> produces g (recipe (snd y))"
  shows "map recipe (children (snd x)) = sel (inputs (recipe (snd x)))"
proof -
  from assms(1) obtain S1 where S1: "replay c sel S xs = Some S1"
    "replay c sel S1 (x # ys) = Some S'"
    by (auto simp: replay_append split: option.splits)
  from replay_set [OF S1(1)] assms(4,5) have g: "g \<notin> S1" by auto
  from assms(3) obtain p where p: "product (recipe (snd x)) = Inr p" "name p = g"
    by (auto simp: produces_product)
  from S1(2) assms(2) p g show ?thesis by (auto split: if_splits)
qed

lemma snd_levels: "snd ` set (levels k n) = set (preorder n)"
proof (induction k n rule: levels.induct)
  case (1 l r q cs)
  have "(\<Union>c \<in> set cs. snd ` set (levels (Suc l) c)) = (\<Union>c \<in> set cs. set (preorder c))"
    using 1 by simp
  then show ?case by (simp add: image_UN)
qed

lemma depth_bound:
  "build_factory reg fitness_func excl n products depth = Inr (n', products') \<Longrightarrow> children n = [] \<Longrightarrow>
     0 \<le> depth \<Longrightarrow> \<forall>x \<in> set (levels k n'). int (fst x) \<le> int k + depth"
  "build_inputs reg fitness_func excl ins products depth = Inr (ns, products') \<Longrightarrow>
     1 \<le> depth \<Longrightarrow> \<forall>x \<in> set (concat (map (levels (Suc k)) ns)). int (fst x) \<le> int k + depth"
proof (induction reg fitness_func excl n products depth and reg fitness_func excl ins products depth
    arbitrary: n' products' k and ns products' k rule: build_factory_build_inputs.induct)
  case (1 reg fitness_func excl r q cs products depth)
  from "1.prems"(2) have cs: "cs = []" by simp
  show ?case
  proof (cases "depth = 0")
    case True
    with "1.prems"(1) cs show ?thesis by auto
  next
    case d: False
    with "1.prems"(1) obtain p where p: "product r = Inr p"
      by (cases "product r") auto
    show ?thesis
    proof (cases "name p \<in> products")
      case True
      with "1.prems"(1,3) d p cs show ?thesis by auto
    next
      case False
      with "1.prems"(1) d p cs obtain new where
        new: "build_inputs reg fitness_func excl (inputs r) (insert (name p) products) depth = Inr (new, products')"
        and n': "n' = Node r q new"
        by (auto split: sum.splits)
      from d "1.prems"(3) have "1 \<le> depth" by simp
      from "1.IH" [OF d p False new this, of k] n' "1.prems"(3) show ?thesis by simp
    qed
  qed
next
  case (2 reg fitness_func excl products depth)
  then show ?case by simp
next
  case (3 reg fitness_func excl i "is" products depth)
  from "3.prems" obtain options where
    o: "get_recipes_by_part reg (name i) Product (Some excl) = Inr options"
    by (cases "get_recipes_by_part reg (name i) Product (Some excl)") auto
  show ?case
  proof (cases "options = []")
    case True
    with "3.prems" o "3.IH"(1) [OF o True, of ns products' k] show ?thesis by simp
  next
    case False
    with "3.prems" o obtain chosen where c: "fitness_func options = Inr chosen"
      by (cases "fitness_func options") auto
    with "3.prems" o False obtain new_node products1 where
      b: "build_factory reg fitness_func excl (Node chosen 1 []) products (depth - 1) = Inr (new_node, products1)"
      by (cases "build_factory reg fitness_func excl (Node chosen 1 []) products (depth - 1)") auto
    with "3.prems" o False c obtain rest where
      r: "build_inputs reg fitness_func excl is products1 depth = Inr (rest, products')"
      and ns: "ns = new_node # rest"
      by (cases "build_inputs reg fitness_func excl is products1 depth") auto
    from "3.prems"(2) have d: "0 \<le> depth - 1" by simp
    from "3.IH"(2) [OF o False c b _ d, of "Suc k"]
    have A: "\<forall>x \<in> set (levels (Suc k) new_node). int (fst x) \<le> int k + depth" by simp
    from "3.IH"(3) [OF o False c b refl r "3.prems"(2), of k]
    have B: "\<forall>x \<in> set (concat (map (levels (Suc k)) rest)). int (fst x) \<le> int k + depth" .
    from A B ns show ?thesis by auto
  qed
qed

lemma build_negative_depth:
  "depth < 0 \<Longrightarrow> depth' < 0 \<Longrightarrow>
     build_factory reg fitness_func excl n products depth
       = build_factory reg fitness_func excl n products depth'"
  "depth < 0 \<Longrightarrow> depth' < 0 \<Longrightarrow>
     build_inputs reg fitness_func excl ins products depth
       = build_inputs reg fitness_func excl ins products depth'"
proof (induction reg fitness_func excl n products depth and reg fitness_func excl ins products depth
    arbitrary: depth' and depth' rule: build_factory_build_inputs.induct)
  case (1 reg fitness_func excl r q cs products depth)
  then have d: "depth \<noteq> 0" "depth' \<noteq> 0" by simp_all
  show ?case
  proof (cases "product r")
    case (Inl e)
    with d show ?thesis by simp
  next
    case (Inr p)
    show ?thesis
    proof (cases "name p \<in> products")
      case True
      with d Inr show ?thesis by simp
    next
      case False
      from "1.IH" [OF d(1) Inr False "1.prems"] d Inr False show ?thesis by simp
    qed
  qed
next
  case (2 reg fitness_func excl products depth)
  show ?case by simp
next
  case (3 reg fitness_func excl i "is" products depth)
  show ?case
  proof (cases "get_recipes_by_part reg (name i) Product (Some excl)")
    case (Inl e)
    then show ?thesis by simp
  next
    case o: (Inr options)
    show ?thesis
    proof (cases "options = []")
      case True
      with o "3.IH"(1) [OF o True "3.prems"] show ?thesis by simp
    next
      case False
      show ?thesis
      proof (cases "fitness_func options")
        case (Inl e)
        with o False show ?thesis by simp
      next
        case c: (Inr chosen)
        from "3.prems" have "depth - 1 < 0" "depth' - 1 < 0" by simp_all
        from "3.IH"(2) [OF o False c this]
        have eq: "build_factory reg fitness_func excl (Node chosen 1 []) products (depth - 1)
            = build_factory reg fitness_func excl (Node chosen 1 []) products (depth' - 1)" .
        show ?thesis
        proof (cases "build_factory reg fitness_func excl (Node chosen 1 []) products (depth - 1)")
          case (Inl e)
          with o False c eq show ?thesis by simp
        next
          case b: (Inr res)
          obtain new_node products1 where res: "res = (new_node, products1)" by (cases res)
          from "3.IH"(3) [OF o False c b [unfolded res] refl "3.prems"]
          have "build_inputs reg fitness_func excl is products1 depth
            = build_inputs reg fitness_func excl is products1 depth'" .
          with o False c eq b res show ?thesis by simp
        qed
      qed
    qed
  qed
qed


lemma build_Inr:
  assumes "build f fitness_func exclude_machines existing_products max_depth = Inr (f', s')"
  shows "\<exists>n products'.
     build_factory (registry f)
       (case fitness_func of None \<Rightarrow> simplest_recipe | Some g \<Rightarrow> g)
       (case exclude_machines of None \<Rightarrow> {''Packager''} | Some s \<Rightarrow> s)
       (Node (recipe (map' f)) (node_quantity (map' f)) [])
       (case existing_products of None \<Rightarrow> {} | Some s \<Rightarrow> s) max_depth = Inr (n, products') \<and>
     f' = f\<lparr>map' := n\<rparr> \<and>
     s' = (case existing_products of None \<Rightarrow> None
           | Some s \<Rightarrow> if s = {} then Some s else Some products')"
proof -
  have seed: "(case existing_products of None \<Rightarrow> {} | Some s \<Rightarrow> if s = {} then {} else s)
      = (case existing_products of None \<Rightarrow> {} | Some s \<Rightarrow> s)"
    by (simp split: option.splits)
  from assms show ?thesis
    unfolding build_def Let_def seed
    by (auto split: sum.splits simp del: build_factory.simps)
qed

lemma build_gadget_0:
  "build gadget_factory None None None 0 = Inr (gadget_factory, None)"
  by (simp add: build_eval)

lemma build_gadget_negative:
  "build gadget_factory None None None (- 2) = build gadget_factory None None None (- 1)"
  by (simp add: build_eval)

lemma selection_gadget:
  "selection (registry gadget_factory) simplest_recipe {''Packager''} (inputs make_gadget)
     = [make_widget, smelt_ore]"
  by (simp add: build_eval)

lemma build_gadget_empty_seed:
  "build gadget_factory None None (Some {}) (- 1)
     = Inr (gadget_factory\<lparr>map' :=
         Node make_gadget 1
           [Node make_widget 1 [Node smelt_ore 1 [Node mine_ore 1 []]],
            Node smelt_ore 1 []]\<rparr>, Some {})"
  by (simp add: build_eval)

section \<open>The claims about build\<close>

text \<open>
  C6. \<^verbatim>\<open>build\<close> with \<^verbatim>\<open>max_depth = 0\<close> returns the root alone, for every catalog, policy and
  root, and leaves the caller's set as it was. In general a node at the level equal to
  \<^verbatim>\<open>max_depth\<close> has no children, and with \<^verbatim>\<open>max_depth\<close> not negative no node lies deeper.
  Above that level the expansion does take place: a node at a level other than
  \<^verbatim>\<open>max_depth\<close> whose product name is not in the seed and is not the product name of an
  earlier node in pre-order at such a level has as children the recipes selected for its
  inputs. A negative \<^verbatim>\<open>max_depth\<close> never reaches zero: the result is the same for all of
  them.
\<close>

theorem build_depth:
  "build f fitness_func exclude_machines existing_products 0
     = Inr (f\<lparr>map' := Node (recipe (map' f)) (node_quantity (map' f)) []\<rparr>, existing_products) \<and>
   (build f fitness_func exclude_machines existing_products max_depth = Inr (f', s') \<and>
    m \<in> set (levels 0 (map' f')) \<longrightarrow>
      (int (fst m) = max_depth \<longrightarrow> children (snd m) = []) \<and>
      (0 \<le> max_depth \<longrightarrow> int (fst m) \<le> max_depth)) \<and>
   (build f fitness_func exclude_machines existing_products max_depth = Inr (f', s') \<and>
    levels 0 (map' f') = xs @ x # ys \<and> int (fst x) \<noteq> max_depth \<and>
    produces g (recipe (snd x)) \<and>
    g \<notin> (case existing_products of None \<Rightarrow> {} | Some s \<Rightarrow> s) \<and>
    (\<forall>y \<in> set xs. int (fst y) \<noteq> max_depth \<longrightarrow> \<not> produces g (recipe (snd y))) \<longrightarrow>
      map recipe (children (snd x))
        = selection (registry f)
            (case fitness_func of None \<Rightarrow> simplest_recipe | Some h \<Rightarrow> h)
            (case exclude_machines of None \<Rightarrow> {''Packager''} | Some s \<Rightarrow> s)
            (inputs (recipe (snd x)))) \<and>
   (max_depth < 0 \<and> depth' < 0 \<longrightarrow>
      build f fitness_func exclude_machines existing_products max_depth
        = build f fitness_func exclude_machines existing_products depth')"
proof (intro conjI impI)
  show "build f fitness_func exclude_machines existing_products 0
     = Inr (f\<lparr>map' := Node (recipe (map' f)) (node_quantity (map' f)) []\<rparr>, existing_products)"
    by (cases existing_products) (simp_all add: build_def)
next
  assume a: "build f fitness_func exclude_machines existing_products max_depth = Inr (f', s') \<and>
    m \<in> set (levels 0 (map' f'))"
  from build_Inr [of f fitness_func exclude_machines existing_products max_depth f' s'] a
  obtain n products' where
    b: "build_factory (registry f)
       (case fitness_func of None \<Rightarrow> simplest_recipe | Some g \<Rightarrow> g)
       (case exclude_machines of None \<Rightarrow> {''Packager''} | Some s \<Rightarrow> s)
       (Node (recipe (map' f)) (node_quantity (map' f)) [])
       (case existing_products of None \<Rightarrow> {} | Some s \<Rightarrow> s) max_depth = Inr (n, products')"
    and f': "f' = f\<lparr>map' := n\<rparr>"
    by blast
  from build_replay(1) [OF b, of 0] have r: "replay max_depth
      (selection (registry f)
         (case fitness_func of None \<Rightarrow> simplest_recipe | Some g \<Rightarrow> g)
         (case exclude_machines of None \<Rightarrow> {''Packager''} | Some s \<Rightarrow> s))
      (case existing_products of None \<Rightarrow> {} | Some s \<Rightarrow> s) (levels 0 n) = Some products'"
    by simp
  from a f' have m: "m \<in> set (levels 0 n)" by simp
  { assume "int (fst m) = max_depth"
    with replay_leaf [OF r m] show "children (snd m) = []" by simp }
  { assume "0 \<le> max_depth"
    from depth_bound(1) [OF b _ this, of 0] m show "int (fst m) \<le> max_depth" by simp }
next
  assume a: "build f fitness_func exclude_machines existing_products max_depth = Inr (f', s') \<and>
    levels 0 (map' f') = xs @ x # ys \<and> int (fst x) \<noteq> max_depth \<and>
    produces g (recipe (snd x)) \<and>
    g \<notin> (case existing_products of None \<Rightarrow> {} | Some s \<Rightarrow> s) \<and>
    (\<forall>y \<in> set xs. int (fst y) \<noteq> max_depth \<longrightarrow> \<not> produces g (recipe (snd y)))"
  from build_Inr [of f fitness_func exclude_machines existing_products max_depth f' s'] a
  obtain n products' where
    b: "build_factory (registry f)
       (case fitness_func of None \<Rightarrow> simplest_recipe | Some g \<Rightarrow> g)
       (case exclude_machines of None \<Rightarrow> {''Packager''} | Some s \<Rightarrow> s)
       (Node (recipe (map' f)) (node_quantity (map' f)) [])
       (case existing_products of None \<Rightarrow> {} | Some s \<Rightarrow> s) max_depth = Inr (n, products')"
    and f': "f' = f\<lparr>map' := n\<rparr>"
    by blast
  from build_replay(1) [OF b, of 0] a f' have r: "replay max_depth
      (selection (registry f)
         (case fitness_func of None \<Rightarrow> simplest_recipe | Some g \<Rightarrow> g)
         (case exclude_machines of None \<Rightarrow> {''Packager''} | Some s \<Rightarrow> s))
      (case existing_products of None \<Rightarrow> {} | Some s \<Rightarrow> s) (xs @ x # ys) = Some products'"
    by simp
  from replay_first [OF r] a
  show "map recipe (children (snd x))
        = selection (registry f)
            (case fitness_func of None \<Rightarrow> simplest_recipe | Some h \<Rightarrow> h)
            (case exclude_machines of None \<Rightarrow> {''Packager''} | Some s \<Rightarrow> s)
            (inputs (recipe (snd x)))"
    by blast
next
  assume "max_depth < 0 \<and> depth' < 0"
  then show "build f fitness_func exclude_machines existing_products max_depth
        = build f fitness_func exclude_machines existing_products depth'"
    using build_negative_depth(1) [of max_depth depth']
    by (simp add: build_def Let_def del: build_factory.simps)
qed

theorem build_depth_witness:
  "build gadget_factory None None None 0 = Inr (gadget_factory, None) \<and>
   build gadget_factory None None None 2
     = Inr (gadget_factory\<lparr>map' :=
         Node make_gadget 1
           [Node make_widget 1 [Node smelt_ore 1 []],
            Node smelt_ore 1 [Node mine_ore 1 []]]\<rparr>, None) \<and>
   children (Node smelt_ore 1 []) = [] \<and>
   selection (registry gadget_factory) simplest_recipe {''Packager''} (inputs make_gadget)
     = [make_widget, smelt_ore] \<and>
   build gadget_factory None None None (- 2) = build gadget_factory None None None (- 1)"
  using build_gadget_0 build_gadget_2 selection_gadget build_gadget_negative
    build_depth [where f = gadget_factory and fitness_func = None and exclude_machines = None
      and existing_products = None, THEN conjunct1]
    build_depth [where f = gadget_factory and fitness_func = None and exclude_machines = None
      and existing_products = None and max_depth = 2 and s' = None
      and f' = "gadget_factory\<lparr>map' :=
         Node make_gadget 1
           [Node make_widget 1 [Node smelt_ore 1 []],
            Node smelt_ore 1 [Node mine_ore 1 []]]\<rparr>"
      and m = "(2, Node smelt_ore 1 [])", THEN conjunct2, THEN conjunct1]
    build_depth [where f = gadget_factory and fitness_func = None and exclude_machines = None
      and existing_products = None and max_depth = 2 and s' = None
      and f' = "gadget_factory\<lparr>map' :=
         Node make_gadget 1
           [Node make_widget 1 [Node smelt_ore 1 []],
            Node smelt_ore 1 [Node mine_ore 1 []]]\<rparr>"
      and xs = "[]" and g = "''Gadget''"
      and x = "(0, Node make_gadget 1
           [Node make_widget 1 [Node smelt_ore 1 []],
            Node smelt_ore 1 [Node mine_ore 1 []]])"
      and ys = "[(1, Node make_widget 1 [Node smelt_ore 1 []]), (2, Node smelt_ore 1 []),
           (1, Node smelt_ore 1 [Node mine_ore 1 []]), (2, Node mine_ore 1 [])]",
      THEN conjunct2, THEN conjunct2, THEN conjunct1]
    build_depth [where f = gadget_factory and fitness_func = None and exclude_machines = None
      and existing_products = None and max_depth = "- 2" and depth' = "- 1",
      THEN conjunct2, THEN conjunct2, THEN conjunct2]
  by simp

text \<open>
  C7 as stated fails with a finite \<^verbatim>\<open>max_depth\<close>. With \<^verbatim>\<open>max_depth = 2\<close> the first producer
  of Bar in pre-order sits at level 2, where the depth is used up: it has no children
  and its product is not recorded. The second one, at level 1, is expanded.
\<close>

theorem build_later_occurrence_counterexample:
  "build gadget_factory None None None 2
     = Inr (gadget_factory\<lparr>map' :=
         Node make_gadget 1
           [Node make_widget 1 [Node smelt_ore 1 []],
            Node smelt_ore 1 [Node mine_ore 1 []]]\<rparr>, None) \<and>
   levels 0 (Node make_gadget 1
           [Node make_widget 1 [Node smelt_ore 1 []],
            Node smelt_ore 1 [Node mine_ore 1 []]])
     = [(0, Node make_gadget 1
           [Node make_widget 1 [Node smelt_ore 1 []],
            Node smelt_ore 1 [Node mine_ore 1 []]]),
        (1, Node make_widget 1 [Node smelt_ore 1 []]),
        (2, Node smelt_ore 1 []),
        (1, Node smelt_ore 1 [Node mine_ore 1 []]),
        (2, Node mine_ore 1 [])] \<and>
   produces ''Bar'' smelt_ore"
  by (simp add: build_gadget_2) (simp add: produces_def smelt_ore_def)

text \<open>
  C7 (as amended). A node whose product name is in the set when \<^verbatim>\<open>_build_factory\<close> visits
  it is returned as it is, with the set as it is. In the tree \<^verbatim>\<open>build\<close> returns: when a
  node at a level other than \<^verbatim>\<open>max_depth\<close> has the same product name as a later node in
  pre-order, the later node has no children; a node whose product name is in the seed
  has no children; and a node at a level other than \<^verbatim>\<open>max_depth\<close> whose product name is
  neither in the seed nor the product name of an earlier node at such a level has as
  children the recipes selected for its inputs.
\<close>

theorem build_pruning:
  "(product r = Inr p \<and> name p \<in> products \<longrightarrow>
      build_factory reg policy excl (Node r q cs) products depth = Inr (Node r q cs, products)) \<and>
   (build f fitness_func exclude_machines existing_products max_depth = Inr (f', s') \<and>
    levels 0 (map' f') = xs @ x # ys @ y # zs \<and> int (fst x) \<noteq> max_depth \<and>
    produces g (recipe (snd x)) \<and> produces g (recipe (snd y)) \<longrightarrow>
      children (snd y) = []) \<and>
   (build f fitness_func exclude_machines existing_products max_depth = Inr (f', s') \<and>
    m \<in> set (levels 0 (map' f')) \<and> produces g (recipe (snd m)) \<and>
    g \<in> (case existing_products of None \<Rightarrow> {} | Some s \<Rightarrow> s) \<longrightarrow>
      children (snd m) = []) \<and>
   (build f fitness_func exclude_machines existing_products max_depth = Inr (f', s') \<and>
    levels 0 (map' f') = xs @ x # ys \<and> int (fst x) \<noteq> max_depth \<and>
    produces g (recipe (snd x)) \<and>
    g \<notin> (case existing_products of None \<Rightarrow> {} | Some s \<Rightarrow> s) \<and>
    (\<forall>y \<in> set xs. int (fst y) \<noteq> max_depth \<longrightarrow> \<not> produces g (recipe (snd y))) \<longrightarrow>
      map recipe (children (snd x))
        = selection (registry f)
            (case fitness_func of None \<Rightarrow> simplest_recipe | Some h \<Rightarrow> h)
            (case exclude_machines of None \<Rightarrow> {''Packager''} | Some s \<Rightarrow> s)
            (inputs (recipe (snd x))))"
proof -
  have replay: "\<exists>products'. replay max_depth
      (selection (registry f)
         (case fitness_func of None \<Rightarrow> simplest_recipe | Some g \<Rightarrow> g)
         (case exclude_machines of None \<Rightarrow> {''Packager''} | Some s \<Rightarrow> s))
      (case existing_products of None \<Rightarrow> {} | Some s \<Rightarrow> s) (levels 0 (map' f')) = Some products'"
    if a: "build f fitness_func exclude_machines existing_products max_depth = Inr (f', s')"
  proof -
    from build_Inr [OF a] obtain n products' where
      b: "build_factory (registry f)
         (case fitness_func of None \<Rightarrow> simplest_recipe | Some g \<Rightarrow> g)
         (case exclude_machines of None \<Rightarrow> {''Packager''} | Some s \<Rightarrow> s)
         (Node (recipe (map' f)) (node_quantity (map' f)) [])
         (case existing_products of None \<Rightarrow> {} | Some s \<Rightarrow> s) max_depth = Inr (n, products')"
      and f': "f' = f\<lparr>map' := n\<rparr>"
      by blast
    from build_replay(1) [OF b, of 0] f' show ?thesis by simp
  qed
  show ?thesis
  proof (intro conjI impI)
    assume "product r = Inr p \<and> name p \<in> products"
    then show "build_factory reg policy excl (Node r q cs) products depth = Inr (Node r q cs, products)"
      by simp
  next
    assume a: "build f fitness_func exclude_machines existing_products max_depth = Inr (f', s') \<and>
      levels 0 (map' f') = xs @ x # ys @ y # zs \<and> int (fst x) \<noteq> max_depth \<and>
      produces g (recipe (snd x)) \<and> produces g (recipe (snd y))"
    with replay obtain products' where "replay max_depth
      (selection (registry f)
         (case fitness_func of None \<Rightarrow> simplest_recipe | Some g \<Rightarrow> g)
         (case exclude_machines of None \<Rightarrow> {''Packager''} | Some s \<Rightarrow> s))
      (case existing_products of None \<Rightarrow> {} | Some s \<Rightarrow> s) (xs @ x # ys @ y # zs) = Some products'"
      by auto
    from replay_later [OF this, of g y] a show "children (snd y) = []" by simp
  next
    assume a: "build f fitness_func exclude_machines existing_products max_depth = Inr (f', s') \<and>
      m \<in> set (levels 0 (map' f')) \<and> produces g (recipe (snd m)) \<and>
      g \<in> (case existing_products of None \<Rightarrow> {} | Some s \<Rightarrow> s)"
    with replay obtain products' where r: "replay max_depth
      (selection (registry f)
         (case fitness_func of None \<Rightarrow> simplest_recipe | Some g \<Rightarrow> g)
         (case exclude_machines of None \<Rightarrow> {''Packager''} | Some s \<Rightarrow> s))
      (case existing_products of None \<Rightarrow> {} | Some s \<Rightarrow> s) (levels 0 (map' f')) = Some products'"
      by auto
    from replay_leaf [OF r, of m] a show "children (snd m) = []" by blast
  next
    assume a: "build f fitness_func exclude_machines existing_products max_depth = Inr (f', s') \<and>
      levels 0 (map' f') = xs @ x # ys \<and> int (fst x) \<noteq> max_depth \<and>
      produces g (recipe (snd x)) \<and>
      g \<notin> (case existing_products of None \<Rightarrow> {} | Some s \<Rightarrow> s) \<and>
      (\<forall>y \<in> set xs. int (fst y) \<noteq> max_depth \<longrightarrow> \<not> produces g (recipe (snd y)))"
    with replay obtain products' where r: "replay max_depth
      (selection (registry f)
         (case fitness_func of None \<Rightarrow> simplest_recipe | Some g \<Rightarrow> g)
         (case exclude_machines of None \<Rightarrow> {''Packager''} | Some s \<Rightarrow> s))
      (case existing_products of None \<Rightarrow> {} | Some s \<Rightarrow> s) (xs @ x # ys) = Some products'"
      by auto
    from replay_first [OF r] a
    show "map recipe (children (snd x))
        = selection (registry f)
            (case fitness_func of None \<Rightarrow> simplest_recipe | Some h \<Rightarrow> h)
            (case exclude_machines of None \<Rightarrow> {''Packager''} | Some s \<Rightarrow> s)
            (inputs (recipe (snd x)))"
      by blast
  qed
qed

theorem build_pruning_witness:
  "build_factory (registry gadget_factory) simplest_recipe {''Packager''} (Node smelt_ore 1 [])
       {''Bar''} (- 1) = Inr (Node smelt_ore 1 [], {''Bar''}) \<and>
   build gadget_factory None None None (- 1)
     = Inr (gadget_factory\<lparr>map' :=
         Node make_gadget 1
           [Node make_widget 1 [Node smelt_ore 1 [Node mine_ore 1 []]],
            Node smelt_ore 1 []]\<rparr>, None) \<and>
   produces ''Bar'' smelt_ore \<and> children (Node smelt_ore 1 []) = [] \<and>
   build gadget_factory None None (Some {''Bar''}) (- 1)
     = Inr (gadget_factory\<lparr>map' :=
         Node make_gadget 1 [Node make_widget 1 [Node smelt_ore 1 []], Node smelt_ore 1 []]\<rparr>,
        Some {''Widget'', ''Gadget'', ''Bar''}) \<and>
   selection (registry gadget_factory) simplest_recipe {''Packager''} (inputs make_gadget)
     = [make_widget, smelt_ore]"
  using build_gadget_unlimited build_gadget_seeded selection_gadget
    build_pruning [where r = smelt_ore and p = "\<lparr>name = ''Bar'', quantity = 30, raw_quantity = 1\<rparr>"
      and products = "{''Bar''}" and reg = "registry gadget_factory" and policy = simplest_recipe
      and excl = "{''Packager''}" and q = 1 and cs = "[]" and depth = "- 1", THEN conjunct1]
    build_pruning [where f = gadget_factory and fitness_func = None and exclude_machines = None
      and existing_products = None and max_depth = "- 1" and s' = None
      and f' = "gadget_factory\<lparr>map' :=
         Node make_gadget 1
           [Node make_widget 1 [Node smelt_ore 1 [Node mine_ore 1 []]],
            Node smelt_ore 1 []]\<rparr>"
      and g = "''Bar''"
      and xs = "[(0, Node make_gadget 1
           [Node make_widget 1 [Node smelt_ore 1 [Node mine_ore 1 []]],
            Node smelt_ore 1 []]),
          (1, Node make_widget 1 [Node smelt_ore 1 [Node mine_ore 1 []]])]"
      and x = "(2, Node smelt_ore 1 [Node mine_ore 1 []])"
      and ys = "[(3, Node mine_ore 1 [])]" and y = "(1, Node smelt_ore 1 [])" and zs = "[]",
      THEN conjunct2, THEN conjunct1]
    build_pruning [where f = gadget_factory and fitness_func = None and exclude_machines = None
      and existing_products = "Some {''Bar''}" and max_depth = "- 1"
      and s' = "Some {''Widget'', ''Gadget'', ''Bar''}"
      and f' = "gadget_factory\<lparr>map' :=
         Node make_gadget 1 [Node make_widget 1 [Node smelt_ore 1 []], Node smelt_ore 1 []]\<rparr>"
      and g = "''Bar''" and m = "(1, Node smelt_ore 1 [])",
      THEN conjunct2, THEN conjunct2, THEN conjunct1]
    build_pruning [where f = gadget_factory and fitness_func = None and exclude_machines = None
      and existing_products = None and max_depth = "- 1" and s' = None
      and f' = "gadget_factory\<lparr>map' :=
         Node make_gadget 1
           [Node make_widget 1 [Node smelt_ore 1 [Node mine_ore 1 []]],
            Node smelt_ore 1 []]\<rparr>"
      and g = "''Gadget''" and xs = "[]"
      and x = "(0, Node make_gadget 1
           [Node make_widget 1 [Node smelt_ore 1 [Node mine_ore 1 []]],
            Node smelt_ore 1 []])"
      and ys = "[(1, Node make_widget 1 [Node smelt_ore 1 [Node mine_ore 1 []]]),
          (2, Node smelt_ore 1 [Node mine_ore 1 []]), (3, Node mine_ore 1 []),
          (1, Node smelt_ore 1 [])]",
      THEN conjunct2, THEN conjunct2, THEN conjunct2]
  by (simp add: produces_def product_def smelt_ore_def)

text \<open>
  C10. The second component of the result of \<^verbatim>\<open>build\<close> is the caller's set after the call.
  A seed that is not empty is the set the build works with: afterwards it holds, besides
  what it held, exactly the product names of the nodes at a level other than
  \<^verbatim>\<open>max_depth\<close>, which are the names of the nodes that were expanded and names it held
  already; and a node whose product name was in it has no children. An empty seed is not
  touched, and the tree is the one built with no seed at all.
\<close>

theorem build_seed_set:
  "(build f fitness_func exclude_machines (Some s) max_depth = Inr (f', s') \<and> s \<noteq> {} \<longrightarrow>
      s' = Some (s \<union> {g. \<exists>x \<in> set (levels 0 (map' f')).
                             int (fst x) \<noteq> max_depth \<and> produces g (recipe (snd x))})) \<and>
   (build f fitness_func exclude_machines (Some s) max_depth = Inr (f', s') \<and>
    m \<in> set (levels 0 (map' f')) \<and> produces g (recipe (snd m)) \<and> g \<in> s \<longrightarrow>
      children (snd m) = []) \<and>
   (build f fitness_func exclude_machines (Some {}) max_depth = Inr (f', s') \<longrightarrow>
      s' = Some {} \<and> build f fitness_func exclude_machines None max_depth = Inr (f', None)) \<and>
   (build f fitness_func exclude_machines None max_depth = Inr (f', s') \<longrightarrow> s' = None)"
proof (intro conjI impI)
  assume a: "build f fitness_func exclude_machines (Some s) max_depth = Inr (f', s') \<and> s \<noteq> {}"
  from build_Inr [of f fitness_func exclude_machines "Some s" max_depth f' s'] a
  obtain n products' where
    b: "build_factory (registry f)
       (case fitness_func of None \<Rightarrow> simplest_recipe | Some g \<Rightarrow> g)
       (case exclude_machines of None \<Rightarrow> {''Packager''} | Some s \<Rightarrow> s)
       (Node (recipe (map' f)) (node_quantity (map' f)) []) s max_depth = Inr (n, products')"
    and f': "f' = f\<lparr>map' := n\<rparr>" and s': "s' = Some products'"
    by auto
  from replay_set [OF build_replay(1) [OF b, of 0]] f' s'
  show "s' = Some (s \<union> {g. \<exists>x \<in> set (levels 0 (map' f')).
                             int (fst x) \<noteq> max_depth \<and> produces g (recipe (snd x))})"
    by simp
next
  assume a: "build f fitness_func exclude_machines (Some s) max_depth = Inr (f', s') \<and>
    m \<in> set (levels 0 (map' f')) \<and> produces g (recipe (snd m)) \<and> g \<in> s"
  from build_Inr [of f fitness_func exclude_machines "Some s" max_depth f' s'] a
  obtain n products' where
    b: "build_factory (registry f)
       (case fitness_func of None \<Rightarrow> simplest_recipe | Some g \<Rightarrow> g)
       (case exclude_machines of None \<Rightarrow> {''Packager''} | Some s \<Rightarrow> s)
       (Node (recipe (map' f)) (node_quantity (map' f)) []) s max_depth = Inr (n, products')"
    and f': "f' = f\<lparr>map' := n\<rparr>"
    by auto
  from build_replay(1) [OF b, of 0] have "replay max_depth
      (selection (registry f)
         (case fitness_func of None \<Rightarrow> simplest_recipe | Some g \<Rightarrow> g)
         (case exclude_machines of None \<Rightarrow> {''Packager''} | Some s \<Rightarrow> s))
      s (levels 0 n) = Some products'"
    by simp
  from replay_leaf [OF this, of m] a f' show "children (snd m) = []" by auto
next
  assume a: "build f fitness_func exclude_machines (Some {}) max_depth = Inr (f', s')"
  then show "s' = Some {}" "build f fitness_func exclude_machines None max_depth = Inr (f', None)"
    by (auto simp: build_def Let_def split: sum.splits simp del: build_factory.simps)
next
  assume "build f fitness_func exclude_machines None max_depth = Inr (f', s')"
  then show "s' = None"
    by (auto simp: build_def Let_def split: sum.splits simp del: build_factory.simps)
qed

theorem build_seed_set_witness:
  "build gadget_factory None None (Some {''Bar''}) (- 1)
     = Inr (gadget_factory\<lparr>map' :=
         Node make_gadget 1 [Node make_widget 1 [Node smelt_ore 1 []], Node smelt_ore 1 []]\<rparr>,
        Some {''Widget'', ''Gadget'', ''Bar''}) \<and>
   children (Node smelt_ore 1 []) = [] \<and>
   build gadget_factory None None (Some {}) (- 1)
     = Inr (gadget_factory\<lparr>map' :=
         Node make_gadget 1
           [Node make_widget 1 [Node smelt_ore 1 [Node mine_ore 1 []]],
            Node smelt_ore 1 []]\<rparr>, Some {}) \<and>
   build gadget_factory None None None (- 1)
     = Inr (gadget_factory\<lparr>map' :=
         Node make_gadget 1
           [Node make_widget 1 [Node smelt_ore 1 [Node mine_ore 1 []]],
            Node smelt_ore 1 []]\<rparr>, None)"
  using build_gadget_seeded build_gadget_empty_seed build_gadget_unlimited
    build_seed_set [where f = gadget_factory and fitness_func = None and exclude_machines = None
      and s = "{''Bar''}" and max_depth = "- 1"
      and s' = "Some {''Widget'', ''Gadget'', ''Bar''}"
      and f' = "gadget_factory\<lparr>map' :=
         Node make_gadget 1 [Node make_widget 1 [Node smelt_ore 1 []], Node smelt_ore 1 []]\<rparr>",
      THEN conjunct1]
    build_seed_set [where f = gadget_factory and fitness_func = None and exclude_machines = None
      and s = "{''Bar''}" and max_depth = "- 1"
      and s' = "Some {''Widget'', ''Gadget'', ''Bar''}"
      and f' = "gadget_factory\<lparr>map' :=
         Node make_gadget 1 [Node make_widget 1 [Node smelt_ore 1 []], Node smelt_ore 1 []]\<rparr>"
      and g = "''Bar''" and m = "(1, Node smelt_ore 1 [])", THEN conjunct2, THEN conjunct1]
    build_seed_set [where f = gadget_factory and fitness_func = None and exclude_machines = None
      and max_depth = "- 1" and s' = "Some {}"
      and f' = "gadget_factory\<lparr>map' :=
         Node make_gadget 1
           [Node make_widget 1 [Node smelt_ore 1 [Node mine_ore 1 []]],
            Node smelt_ore 1 []]\<rparr>", THEN conjunct2, THEN conjunct2, THEN conjunct1]
    build_seed_set [where f = gadget_factory and fitness_func = None and exclude_machines = None
      and max_depth = "- 1" and s' = None
      and f' = "gadget_factory\<lparr>map' :=
         Node make_gadget 1
           [Node make_widget 1 [Node smelt_ore 1 [Node mine_ore 1 []]],
            Node smelt_ore 1 []]\<rparr>", THEN conjunct2, THEN conjunct2, THEN conjunct2]
  by simp

end
